theory Spec2Isabelle
  imports Main "HOL-Library.Sublist"
begin

section \<open>The callbacks as functions\<close>

subsection \<open>Bytes, text and the callback log\<close>

text \<open>
  Python \<open>bytes\<close> are lists of 8-bit characters; Python \<open>str\<close> is a list of Unicode code
  points. \<open>u\<close> turns an ASCII literal into text.
\<close>

type_synonym bytes = string
type_synonym pystr = "nat list"

definition u :: "string \<Rightarrow> pystr" where
  "u s = map of_char s"

type_synonym logfile = "(string \<times> pystr) list option"

definition log_callback :: "string \<Rightarrow> pystr \<Rightarrow> logfile \<Rightarrow> logfile" where
  "log_callback tag message lg = map_option (\<lambda>entries. entries @ [(tag, message)]) lg"

fun contains :: "bytes \<Rightarrow> bytes \<Rightarrow> bool" where
  "contains p [] = (p = [])"
| "contains p (c # cs) = (prefix p (c # cs) \<or> contains p cs)"

function replace :: "bytes \<Rightarrow> bytes \<Rightarrow> bytes \<Rightarrow> bytes" where
  "replace old new [] = (if old = [] then new else [])"
| "replace old new (c # cs) =
     (if old = [] then new @ c # replace old new cs
      else if prefix old (c # cs) then new @ replace old new (drop (length old) (c # cs))
      else c # replace old new cs)"
  by pat_completeness auto
termination
  by (relation "measure (\<lambda>(old, new, s). length s)") (auto simp: neq_Nil_conv)

definition message_callback :: "logfile \<Rightarrow> bytes \<Rightarrow> logfile \<times> bytes" where
  "message_callback lg message =
     (let lg1 = log_callback ''MESSAGE'' (u ''Processing commit message'') lg in
      if contains ''SECRET'' message then
        (let lg2 = log_callback ''MESSAGE'' (u ''Found 'SECRET' in commit message, redacting...'') lg1;
             redacted_message = replace ''SECRET'' ''[REDACTED]'' message;
             lg3 = log_callback ''MESSAGE'' (u ''Commit message redacted successfully'') lg2
         in (lg3, redacted_message))
      else
        (log_callback ''MESSAGE'' (u ''No 'SECRET' found in commit message, returning unchanged'') lg1,
         message))"

definition redact :: "bytes \<Rightarrow> bytes" where
  "redact message = snd (message_callback None message)"


text \<open>
  Reading aid for the replacement: \<open>pieces old s\<close> are the stretches of \<open>s\<close> that lie between
  the occurrences of \<open>old\<close> found by the left-to-right scan of \<open>replace\<close>, and \<open>join sep\<close>
  puts a separator between consecutive stretches (Python's \<open>sep.join\<close>).
\<close>

function pieces :: "bytes \<Rightarrow> bytes \<Rightarrow> bytes list" where
  "pieces old [] = [[]]"
| "pieces old (c # cs) =
     (if old \<noteq> [] \<and> prefix old (c # cs) then [] # pieces old (drop (length old) (c # cs))
      else (case pieces old cs of [] \<Rightarrow> [[c]] | p # ps \<Rightarrow> (c # p) # ps))"
  by pat_completeness auto
termination
  by (relation "measure (\<lambda>(old, s). length s)") (auto simp: neq_Nil_conv)

fun join :: "'a list \<Rightarrow> 'a list list \<Rightarrow> 'a list" where
  "join sep [] = []"
| "join sep [x] = x"
| "join sep (x # y # ys) = x @ sep @ join sep (y # ys)"


subsection \<open>Python values and decimal text\<close>

text \<open>
  What \<open>json.load\<close> returns. A dict is an association list with distinct keys, in insertion
  order. JSON numbers with a fraction or an exponent (Python floats) are not represented.
\<close>

datatype json =
    JNull
  | JBool bool
  | JInt int
  | JStr pystr
  | JArr "json list"
  | JObj "(pystr \<times> json) list"

datatype error = KeyError | OSError | JSONDecodeError | AttributeError | TypeError | UnicodeEncodeError

text \<open>
  A file named by an environment variable and read as JSON: the variable may be unset
  (\<open>os.environ[...]\<close> raises), the file may fail to open, its text may fail to parse.
\<close>

datatype source = Unset | Unopenable | Malformed | Parsed json

fun read_json :: "source \<Rightarrow> error + json" where
  "read_json Unset = Inl KeyError"
| "read_json Unopenable = Inl OSError"
| "read_json Malformed = Inl JSONDecodeError"
| "read_json (Parsed j) = Inr j"

text \<open>
  Python's integers as the callbacks meet them: \<open>bool\<close> is a subclass of \<open>int\<close>, so \<open>True\<close>
  compares and computes as 1 and \<open>False\<close> as 0, but each prints as its own name.
\<close>

datatype pyint = PInt int | PBool bool

fun as_pyint :: "json \<Rightarrow> pyint option" where
  "as_pyint (JInt n) = Some (PInt n)"
| "as_pyint (JBool b) = Some (PBool b)"
| "as_pyint _ = None"

fun int_of :: "pyint \<Rightarrow> int" where
  "int_of (PInt n) = n"
| "int_of (PBool b) = (if b then 1 else 0)"

definition digit :: "nat \<Rightarrow> char" where
  "digit d = char_of (48 + d)"

function str_nat :: "nat \<Rightarrow> string" where
  "str_nat n = (if n < 10 then [digit n] else str_nat (n div 10) @ [digit (n mod 10)])"
  by pat_completeness auto
termination
  by (relation "measure id") auto

declare str_nat.simps [simp del]

definition str_int :: "int \<Rightarrow> string" where
  "str_int i = (if i < 0 then CHR ''-'' # str_nat (nat (- i)) else str_nat (nat i))"

fun str_pyint :: "pyint \<Rightarrow> string" where
  "str_pyint (PInt n) = str_int n"
| "str_pyint (PBool b) = (if b then ''True'' else ''False'')"

subsection \<open>Progress ledger (commit.py)\<close>

text \<open>
  The module-level names the callback keeps in \<open>globals()\<close>; \<open>None\<close> is a name not yet bound.
\<close>

record globals =
  total_commits :: "json option"
  seen_hashes :: "string set option"
  processed_count :: "int option"

record ledger =
  globs :: globals
  progress_file :: "error + string list"
  callback_log :: logfile

definition fresh_globals :: globals where
  "fresh_globals = \<lparr>total_commits = None, seen_hashes = None, processed_count = None\<rparr>"

text \<open>Lines 6-11: any exception while reading the stats file leaves the total at 0.\<close>

definition read_total_commits :: "source \<Rightarrow> json" where
  "read_total_commits stats_file =
     (case read_json stats_file of
        Inl e \<Rightarrow> JInt 0
      | Inr (JObj kvs) \<Rightarrow> (case map_of kvs (u ''total_commits'') of Some v \<Rightarrow> v | None \<Rightarrow> JInt 0)
      | Inr other \<Rightarrow> JInt 0)"

text \<open>
  Lines 6-18: each name is bound on the first call only. The result is the three values the
  rest of the callback reads from \<open>globals()\<close>.
\<close>

definition init_globals :: "source \<Rightarrow> globals \<Rightarrow> json \<times> string set \<times> int" where
  "init_globals stats_file g =
     (case total_commits g of None \<Rightarrow> read_total_commits stats_file | Some v \<Rightarrow> v,
      case seen_hashes g of None \<Rightarrow> {} | Some s \<Rightarrow> s,
      case processed_count g of None \<Rightarrow> 0 | Some c \<Rightarrow> c)"

definition bind_globals :: "json \<Rightarrow> string set \<Rightarrow> int \<Rightarrow> globals" where
  "bind_globals total_n seen count =
     \<lparr>total_commits = Some total_n, seen_hashes = Some seen, processed_count = Some count\<rparr>"

definition hexdigit :: "nat \<Rightarrow> char" where
  "hexdigit d = (if d < 10 then char_of (48 + d) else char_of (87 + d))"

definition hex :: "bytes \<Rightarrow> string" where
  "hex bs = concat (map (\<lambda>b. [hexdigit (of_char b div 16), hexdigit (of_char b mod 16)]) bs)"

text \<open>
  The progress line of line 42. The percentage of a positive total is computed and printed
  in floating point, which is not modelled: its text is the parameter \<open>fmt1f\<close>, applied to
  the processed count and the total. For a total that is not positive the percentage is the
  integer 0, printed as \<open>0.0\<close>.
\<close>

definition percentage_text :: "(int \<Rightarrow> int \<Rightarrow> string) \<Rightarrow> int \<Rightarrow> int \<Rightarrow> string" where
  "percentage_text fmt1f count total_n = (if total_n > 0 then fmt1f count total_n else ''0.0'')"

definition progress_line :: "string \<Rightarrow> pyint \<Rightarrow> int \<Rightarrow> string \<Rightarrow> string" where
  "progress_line commit_hash total_n count pct =
     commit_hash @ '' '' @ str_pyint total_n @ '' seen '' @ str_int count @ '' processed '' @ pct
       @ ''%'' @ [CHR 0x0A]"

text \<open>
  Lines 20-46. \<open>total_commits > 0\<close> raises \<open>TypeError\<close> for a total that is neither an integer nor
  a boolean; by then \<open>seen_hashes\<close> and \<open>processed_count\<close> are already updated. The progress file is
  opened outside any \<open>try\<close>, so a failure to open it leaves the callback as an exception.
\<close>

definition commit_callback ::
  "(int \<Rightarrow> int \<Rightarrow> string) \<Rightarrow> source \<Rightarrow> ledger \<Rightarrow> bytes \<Rightarrow> (error + unit) \<times> ledger" where
  "commit_callback fmt1f stats_file w original_id =
     (case init_globals stats_file (globs w) of (total_n, seen, count) \<Rightarrow>
      let commit_hash = hex original_id;
          lg1 = log_callback ''COMMIT'' (u (''Processing commit '' @ commit_hash)) (callback_log w)
      in if commit_hash \<notin> seen then
           (let g' = bind_globals total_n (insert commit_hash seen) (count + 1)
            in case as_pyint total_n of
                 None \<Rightarrow> (Inl TypeError, w\<lparr>globs := g', callback_log := lg1\<rparr>)
               | Some t \<Rightarrow>
                   (let pct = percentage_text fmt1f (count + 1) (int_of t)
                    in case progress_file w of
                         Inl e \<Rightarrow> (Inl e, w\<lparr>globs := g', callback_log := lg1\<rparr>)
                       | Inr lines \<Rightarrow>
                           (Inr (),
                            w\<lparr>globs := g',
                              progress_file := Inr (lines @ [progress_line commit_hash t (count + 1) pct]),
                              callback_log := log_callback ''COMMIT''
                                (u (''Added commit '' @ commit_hash @ '' to progress file (''
                                    @ str_int (count + 1) @ ''/'' @ str_pyint t @ '' = '' @ pct @ ''%)''))
                                lg1\<rparr>)))
         else
           (Inr (),
            w\<lparr>globs := bind_globals total_n seen count,
              callback_log := log_callback ''COMMIT''
                (u (''Commit '' @ commit_hash @ '' already processed, skipping'')) lg1\<rparr>))"

text \<open>
  One process run: the driver calls the callback once per visited commit, and an exception
  that leaves the callback ends the run.
\<close>

fun run_commits ::
  "(int \<Rightarrow> int \<Rightarrow> string) \<Rightarrow> source \<Rightarrow> ledger \<Rightarrow> bytes list \<Rightarrow> (error + unit) \<times> ledger" where
  "run_commits fmt1f stats_file w [] = (Inr (), w)"
| "run_commits fmt1f stats_file w (c # cs) =
     (case commit_callback fmt1f stats_file w c of
        (Inl e, w') \<Rightarrow> (Inl e, w')
      | (Inr _, w') \<Rightarrow> run_commits fmt1f stats_file w' cs)"

subsection \<open>Text: UTF-8 and line splitting\<close>

text \<open>
  \<open>bytes.decode("utf-8", errors="ignore")\<close>. A well-formed sequence (one to four bytes, no
  overlong form, no surrogate, nothing above U+10FFFF) gives its code point. Otherwise the
  first byte is dropped and decoding goes on with the next one: the decoder skips the longest
  ill-formed prefix, every further byte of which is a continuation byte that cannot begin a
  sequence, so dropping byte by byte yields the same text.
\<close>

definition cont :: "char \<Rightarrow> bool" where
  "cont b = (0x80 \<le> (of_char b :: nat) \<and> (of_char b :: nat) \<le> 0xBF)"

definition low6 :: "char \<Rightarrow> nat" where
  "low6 b = of_char b - 0x80"

fun utf8_decode :: "bytes \<Rightarrow> pystr" where
  "utf8_decode [] = []"
| "utf8_decode (b # bs) =
     (let n = (of_char b :: nat) in
      if n < 0x80 then n # utf8_decode bs
      else if 0xC2 \<le> n \<and> n \<le> 0xDF then
        (case bs of
           b1 # r \<Rightarrow>
             if cont b1 then ((n - 0xC0) * 64 + low6 b1) # utf8_decode r else utf8_decode bs
         | _ \<Rightarrow> utf8_decode bs)
      else if 0xE0 \<le> n \<and> n \<le> 0xEF then
        (case bs of
           b1 # b2 # r \<Rightarrow>
             if cont b1 \<and> (n = 0xE0 \<longrightarrow> 0xA0 \<le> (of_char b1 :: nat))
                  \<and> (n = 0xED \<longrightarrow> (of_char b1 :: nat) < 0xA0) \<and> cont b2
             then ((n - 0xE0) * 4096 + low6 b1 * 64 + low6 b2) # utf8_decode r
             else utf8_decode bs
         | _ \<Rightarrow> utf8_decode bs)
      else if 0xF0 \<le> n \<and> n \<le> 0xF4 then
        (case bs of
           b1 # b2 # b3 # r \<Rightarrow>
             if cont b1 \<and> (n = 0xF0 \<longrightarrow> 0x90 \<le> (of_char b1 :: nat))
                  \<and> (n = 0xF4 \<longrightarrow> (of_char b1 :: nat) < 0x90) \<and> cont b2 \<and> cont b3
             then ((n - 0xF0) * 262144 + low6 b1 * 4096 + low6 b2 * 64 + low6 b3) # utf8_decode r
             else utf8_decode bs
         | _ \<Rightarrow> utf8_decode bs)
      else utf8_decode bs)"

text \<open>\<open>str.encode("utf-8")\<close>: a surrogate code point raises \<open>UnicodeEncodeError\<close>.\<close>

definition encode_char :: "nat \<Rightarrow> error + bytes" where
  "encode_char c =
     (if c < 0x80 then Inr [char_of c]
      else if c < 0x800 then Inr [char_of (0xC0 + c div 64), char_of (0x80 + c mod 64)]
      else if 0xD800 \<le> c \<and> c \<le> 0xDFFF then Inl UnicodeEncodeError
      else if c < 0x10000 then
        Inr [char_of (0xE0 + c div 4096), char_of (0x80 + c div 64 mod 64), char_of (0x80 + c mod 64)]
      else
        Inr [char_of (0xF0 + c div 262144), char_of (0x80 + c div 4096 mod 64),
             char_of (0x80 + c div 64 mod 64), char_of (0x80 + c mod 64)])"

fun utf8_encode :: "pystr \<Rightarrow> error + bytes" where
  "utf8_encode [] = Inr []"
| "utf8_encode (c # cs) =
     (case encode_char c of
        Inl e \<Rightarrow> Inl e
      | Inr bs \<Rightarrow> (case utf8_encode cs of Inl e \<Rightarrow> Inl e | Inr rest \<Rightarrow> Inr (bs @ rest)))"

text \<open>
  \<open>str.splitlines()\<close>: the line boundaries are \<open>\n\<close>, \<open>\r\<close>, \<open>\r\n\<close> (one boundary), \<open>\v\<close>, \<open>\f\<close>,
  \<open>\x1c\<close>, \<open>\x1d\<close>, \<open>\x1e\<close>, \<open>\x85\<close>, U+2028 and U+2029; the boundaries are not kept, and a
  boundary at the very end opens no further line.
\<close>

definition linebreak :: "nat \<Rightarrow> bool" where
  "linebreak c = (c \<in> {0x0A, 0x0B, 0x0C, 0x0D, 0x1C, 0x1D, 0x1E, 0x85, 0x2028, 0x2029})"

fun splitlines :: "pystr \<Rightarrow> pystr list" where
  "splitlines [] = []"
| "splitlines [c] = (if linebreak c then [[]] else [[c]])"
| "splitlines (c # d # ds) =
     (if c = 0x0D \<and> d = 0x0A then [] # splitlines ds
      else if linebreak c then [] # splitlines (d # ds)
      else (case splitlines (d # ds) of [] \<Rightarrow> [[c]] | l # ls \<Rightarrow> (c # l) # ls))"

subsection \<open>Blob scrubber (file-info.py)\<close>

text \<open>
  Lines 15-21. The callback body runs inside a function, so \<open>bad_lines = set()\<close> binds a local
  name: \<open>globals()\<close> never holds \<open>bad_lines\<close> and the file is read on every call.

  Iterating the loaded value: a list yields its elements, a dict its keys, a string its
  characters, anything else raises. Subscripting an element with a string works for a dict
  only. The key \<open>(File, StartLine)\<close> must be hashable, which a list or a dict is not.
\<close>

fun iterate :: "json \<Rightarrow> error + json list" where
  "iterate (JArr es) = Inr es"
| "iterate (JObj kvs) = Inr (map (\<lambda>(k, v). JStr k) kvs)"
| "iterate (JStr s) = Inr (map (\<lambda>c. JStr [c]) s)"
| "iterate _ = Inl TypeError"

fun subscript :: "json \<Rightarrow> string \<Rightarrow> error + json" where
  "subscript (JObj kvs) k = (case map_of kvs (u k) of None \<Rightarrow> Inl KeyError | Some v \<Rightarrow> Inr v)"
| "subscript _ k = Inl TypeError"

fun hashable :: "json \<Rightarrow> bool" where
  "hashable (JArr es) = False"
| "hashable (JObj kvs) = False"
| "hashable _ = True"

text \<open>Python's \<open>==\<close> on hashable values: \<open>1 == True\<close>, and values of different kinds differ.\<close>

fun py_eq :: "json \<Rightarrow> json \<Rightarrow> bool" where
  "py_eq (JStr a) (JStr b) = (a = b)"
| "py_eq JNull JNull = True"
| "py_eq a b = (case (as_pyint a, as_pyint b) of (Some x, Some y) \<Rightarrow> int_of x = int_of y | _ \<Rightarrow> False)"

type_synonym finding = "json \<times> json"

text \<open>
  The set \<open>bad_lines\<close> as the list of its elements in insertion order; \<open>set.add\<close> keeps the
  element already present when an equal one arrives.
\<close>

definition set_add :: "finding \<Rightarrow> finding list \<Rightarrow> finding list" where
  "set_add key bad_lines =
     (if \<exists>k \<in> set bad_lines. py_eq (fst k) (fst key) \<and> py_eq (snd k) (snd key) then bad_lines
      else bad_lines @ [key])"

fun add_findings :: "json list \<Rightarrow> finding list \<Rightarrow> error + finding list" where
  "add_findings [] bad_lines = Inr bad_lines"
| "add_findings (e # es) bad_lines =
     (case subscript e ''File'' of
        Inl err \<Rightarrow> Inl err
      | Inr f \<Rightarrow>
          (case subscript e ''StartLine'' of
             Inl err \<Rightarrow> Inl err
           | Inr l \<Rightarrow>
               if hashable f \<and> hashable l then add_findings es (set_add (f, l) bad_lines)
               else Inl TypeError))"

definition load_bad_lines :: "source \<Rightarrow> error + finding list" where
  "load_bad_lines gitleaks_file =
     (case read_json gitleaks_file of
        Inl err \<Rightarrow> Inl err
      | Inr j \<Rightarrow> (case iterate j of Inl err \<Rightarrow> Inl err | Inr es \<Rightarrow> add_findings es []))"

text \<open>
  What the callback does to its surroundings: the log, the blob ids it asked the driver for
  and the contents it handed to the driver for storing.
\<close>

record 'id world =
  file_log :: logfile
  fetched :: "'id list"
  inserted :: "bytes list"

text \<open>
  Lines 44-48, the loop over \<open>list(bad_lines)\<close>. \<open>0 < lnum\<close> raises \<open>TypeError\<close> for a line number
  that is a string or \<open>None\<close>; it is evaluated only for a finding of this file.
\<close>

fun clean_lines ::
  "pystr \<Rightarrow> finding list \<Rightarrow> pystr list \<Rightarrow> nat \<Rightarrow> logfile \<Rightarrow> (error + pystr list \<times> nat) \<times> logfile" where
  "clean_lines decoded_filename [] lines lines_modified lg = (Inr (lines, lines_modified), lg)"
| "clean_lines decoded_filename ((f, lnum) # rest) lines lines_modified lg =
     (if f = JStr decoded_filename then
        (case as_pyint lnum of
           None \<Rightarrow> (Inl TypeError, lg)
         | Some n \<Rightarrow>
             if 0 < int_of n \<and> int_of n \<le> int (length lines) then
               clean_lines decoded_filename rest (lines[nat (int_of n - 1) := []]) (lines_modified + 1)
                 (log_callback ''FILE_INFO''
                    (u (''Removed secret from line '' @ str_pyint n @ '' in '') @ decoded_filename) lg)
             else clean_lines decoded_filename rest lines lines_modified lg)
      else clean_lines decoded_filename rest lines lines_modified lg)"

text \<open>
  The callback. \<open>get_contents\<close> and \<open>insert_file\<close> are the driver's
  \<open>get_contents_by_identifier\<close> and \<open>insert_file_with_contents\<close>.
\<close>

definition file_info_callback ::
  "('id \<Rightarrow> bytes) \<Rightarrow> (bytes \<Rightarrow> 'id) \<Rightarrow> source \<Rightarrow> 'id world \<Rightarrow> bytes \<Rightarrow> 'm \<Rightarrow> 'id
     \<Rightarrow> (error + bytes \<times> 'm \<times> 'id) \<times> 'id world" where
  "file_info_callback get_contents insert_file gitleaks_file w filename mode blob_id =
     (case load_bad_lines gitleaks_file of
        Inl err \<Rightarrow> (Inl err, w)
      | Inr bad_lines \<Rightarrow>
          (let lg1 = log_callback ''FILE_INFO''
                 (u (''Loaded '' @ str_nat (length bad_lines) @ '' secret locations from gitleaks file''))
                 (file_log w);
               decoded_filename = utf8_decode filename;
               lg2 = log_callback ''FILE_INFO'' (u ''Processing file: '' @ decoded_filename) lg1;
               has_secret = (\<exists>(f, l) \<in> set bad_lines. f = JStr decoded_filename)
           in if \<not> has_secret then
                (Inr (filename, mode, blob_id),
                 w\<lparr>file_log := log_callback ''FILE_INFO''
                      (u ''No secrets found in '' @ decoded_filename @ u '', returning unchanged'') lg2\<rparr>)
              else
                (let lg3 = log_callback ''FILE_INFO''
                       (u ''Found secrets in '' @ decoded_filename @ u '', processing...'') lg2;
                     contents = get_contents blob_id;
                     w1 = w\<lparr>fetched := fetched w @ [blob_id]\<rparr>;
                     lines = splitlines (utf8_decode contents);
                     original_line_count = length lines
                 in case clean_lines decoded_filename bad_lines lines 0 lg3 of
                      (Inl err, lg4) \<Rightarrow> (Inl err, w1\<lparr>file_log := lg4\<rparr>)
                    | (Inr (lines', lines_modified), lg4) \<Rightarrow>
                        (case utf8_encode (join [0x0A] lines') of
                           Inl err \<Rightarrow> (Inl err, w1\<lparr>file_log := lg4\<rparr>)
                         | Inr encoded \<Rightarrow>
                             (let new_contents = encoded @ [CHR 0x0A];
                                  new_blob_id = insert_file new_contents
                              in (Inr (filename, mode, new_blob_id),
                                  w1\<lparr>file_log := log_callback ''FILE_INFO''
                                         (u (''Modified '' @ str_nat lines_modified @ '' lines in '')
                                            @ decoded_filename
                                            @ u ('' (original: '' @ str_nat original_line_count @ '' lines)''))
                                         lg4,
                                       inserted := inserted w @ [new_contents]\<rparr>))))))"


subsection \<open>Reading aids for the ledger\<close>

text \<open>
  The commit hashes of a run in the order of their first visit, given the hashes seen before,
  and the progress lines a run appends for them when the processed count starts at \<open>n\<close>.
\<close>

fun first_visits :: "string set \<Rightarrow> string list \<Rightarrow> string list" where
  "first_visits seen [] = []"
| "first_visits seen (h # hs) =
     (if h \<in> seen then first_visits seen hs else h # first_visits (insert h seen) hs)"

fun ledger_lines :: "(int \<Rightarrow> int \<Rightarrow> string) \<Rightarrow> pyint \<Rightarrow> int \<Rightarrow> string list \<Rightarrow> string list" where
  "ledger_lines fmt1f t n [] = []"
| "ledger_lines fmt1f t n (h # hs) =
     progress_line h t (n + 1) (percentage_text fmt1f (n + 1) (int_of t))
       # ledger_lines fmt1f t (n + 1) hs"

subsection \<open>Reading aids for the scrubber\<close>

text \<open>A Unicode scalar value: a code point up to U+10FFFF that is not a surrogate.\<close>

definition scalar :: "nat \<Rightarrow> bool" where
  "scalar c = (c < 0xD800 \<or> (0xDFFF < c \<and> c < 0x110000))"

text \<open>
  \<open>flagged\<close>: the index holds a finding for this file at line \<open>k\<close> (counted from 1).
  \<open>int_lines\<close>: every finding of this file carries a line number that is an integer, so that
  the comparison of line 45 does not raise.
\<close>

definition flagged :: "pystr \<Rightarrow> finding list \<Rightarrow> nat \<Rightarrow> bool" where
  "flagged decoded_filename bad_lines k =
     (\<exists>(f, l) \<in> set bad_lines. f = JStr decoded_filename
        \<and> map_option int_of (as_pyint l) = Some (int k))"

definition int_lines :: "pystr \<Rightarrow> finding list \<Rightarrow> bool" where
  "int_lines decoded_filename bad_lines =
     (\<forall>(f, l) \<in> set bad_lines. f = JStr decoded_filename \<longrightarrow> as_pyint l \<noteq> None)"

text \<open>
  \<open>record_ok\<close>: the element of the findings file can be turned into a key of \<open>bad_lines\<close>, that
  is, it is a dict with the keys \<open>File\<close> and \<open>StartLine\<close> whose values are hashable.
\<close>

definition record_ok :: "json \<Rightarrow> bool" where
  "record_ok e =
     (case subscript e ''File'' of
        Inl err \<Rightarrow> False
      | Inr f \<Rightarrow> (case subscript e ''StartLine'' of
                    Inl err \<Rightarrow> False
                  | Inr l \<Rightarrow> hashable f \<and> hashable l))"

text \<open>
  The line buffer after the loop of lines 44-48, in closed form: a line that a finding of
  this file names is empty, every other line is as it was.
\<close>

definition blanked :: "pystr \<Rightarrow> finding list \<Rightarrow> pystr list \<Rightarrow> pystr list" where
  "blanked decoded_filename bad_lines lines =
     map (\<lambda>i. if flagged decoded_filename bad_lines (i + 1) then [] else lines ! i)
       [0..<length lines]"

text \<open>Reading a decimal numeral back, to say which number a progress line carries.\<close>

definition read_nat :: "string \<Rightarrow> nat" where
  "read_nat s = foldl (\<lambda>a c. 10 * a + (of_char c - 48)) 0 s"

text \<open>
  The number of newline bytes a content ends in, and the number of empty lines a line buffer
  ends in.
\<close>

definition trailing_newlines :: "bytes \<Rightarrow> nat" where
  "trailing_newlines bs = length (takeWhile (\<lambda>b. b = CHR 0x0A) (rev bs))"

definition trailing_empty :: "pystr list \<Rightarrow> nat" where
  "trailing_empty ls = length (takeWhile (\<lambda>l. l = []) (rev ls))"

section \<open>Message redactor\<close>

lemma contains_iff: "contains p s \<longleftrightarrow> (\<exists>a b. s = a @ p @ b)"
proof (induction s)
  case Nil
  then show ?case by auto
next
  case (Cons c cs)
  show ?case
  proof
    assume "contains p (c # cs)"
    then consider "prefix p (c # cs)" | "contains p cs" by auto
    then show "\<exists>a b. c # cs = a @ p @ b"
    proof cases
      case 1
      then obtain b where "c # cs = p @ b" by (auto simp: prefix_def)
      then have "c # cs = [] @ p @ b" by simp
      then show ?thesis by blast
    next
      case 2
      with Cons obtain a b where "cs = a @ p @ b" by auto
      then have "c # cs = (c # a) @ p @ b" by simp
      then show ?thesis by blast
    qed
  next
    assume "\<exists>a b. c # cs = a @ p @ b"
    then obtain a b where ab: "c # cs = a @ p @ b" by auto
    show "contains p (c # cs)"
    proof (cases a)
      case Nil
      with ab have "prefix p (c # cs)" by (simp add: prefix_def)
      then show ?thesis by simp
    next
      case (Cons a1 as)
      with ab have "cs = as @ p @ b" by simp
      with Cons.IH show ?thesis by auto
    qed
  qed
qed

lemma replace_absent: "\<not> contains old s \<Longrightarrow> replace old new s = s"
  by (induction old new s rule: replace.induct) auto

lemma replace_prefix_back:
  "old \<noteq> [] \<Longrightarrow> new \<noteq> [] \<Longrightarrow> hd new \<notin> set w \<Longrightarrow> prefix w (replace old new s) \<Longrightarrow> prefix w s"
proof (induction old new s arbitrary: w rule: replace.induct)
  case (1 old new)
  then show ?case by simp
next
  case (2 old new c cs)
  note ne = \<open>old \<noteq> []\<close> \<open>new \<noteq> []\<close>
  show ?case
  proof (cases "prefix old (c # cs)")
    case True
    with "2.prems" have "prefix w (new @ replace old new (drop (length old) (c # cs)))" by simp
    with "2.prems"(2,3) have "w = []" by (cases w; cases new) auto
    then show ?thesis by simp
  next
    case False
    with "2.prems" have p: "prefix w (c # replace old new cs)" by simp
    show ?thesis
    proof (cases w)
      case Nil
      then show ?thesis by simp
    next
      case (Cons x xs)
      with p have xc: "x = c" and px: "prefix xs (replace old new cs)" by auto
      have hn: "hd new \<notin> set xs" using "2.prems"(3) Cons by auto
      have "prefix xs cs" using "2.IH"(3)[OF ne(1) False ne hn px] .
      with xc Cons show ?thesis by simp
    qed
  qed
qed


lemma contains_skip:
  "old \<noteq> [] \<Longrightarrow> hd old \<notin> set new \<Longrightarrow> contains old (new @ t) = contains old t"
proof (induction new)
  case Nil
  then show ?case by simp
next
  case (Cons n ns)
  then have "\<not> prefix old (n # ns @ t)" by (cases old) auto
  with Cons show ?case by simp
qed

lemma replace_free:
  assumes "old \<noteq> []" "new \<noteq> []" "hd new \<notin> set old" "hd old \<notin> set new"
  shows "\<not> contains old (replace old new s)"
  using assms
proof (induction old new s rule: replace.induct)
  case (1 old new)
  then show ?case by simp
next
  case (2 old new c cs)
  show ?case
  proof (cases "prefix old (c # cs)")
    case True
    then show ?thesis using 2 by (simp add: contains_skip)
  next
    case False
    have "\<not> prefix old (replace old new (c # cs))"
      using replace_prefix_back[OF "2.prems"(1,2,3)] False by blast
    then show ?thesis using 2 False by simp
  qed
qed

lemma pieces_not_Nil: "pieces old s \<noteq> []"
  by (induction old s rule: pieces.induct) (auto split: list.splits)

lemma join_Cons: "ps \<noteq> [] \<Longrightarrow> join sep (p # ps) = p @ sep @ join sep ps"
  by (cases ps) auto

lemma join_Cons_hd: "join sep ((c # p) # ps) = c # join sep (p # ps)"
  by (cases ps) auto

lemma join_pieces: "join old (pieces old s) = s"
proof (induction old s rule: pieces.induct)
  case (1 old)
  then show ?case by simp
next
  case (2 old c cs)
  show ?case
  proof (cases "old \<noteq> [] \<and> prefix old (c # cs)")
    case True
    then have "old @ drop (length old) (c # cs) = c # cs"
      by (metis append_eq_conv_conj prefix_def)
    with True 2 show ?thesis by (simp add: join_Cons pieces_not_Nil)
  next
    case False
    obtain p ps where pp: "pieces old cs = p # ps"
      using pieces_not_Nil by (cases "pieces old cs") auto
    with False 2 have "join old (p # ps) = cs" by auto
    with pp False show ?thesis by (auto simp add: join_Cons_hd)
  qed
qed

lemma replace_pieces: "old \<noteq> [] \<Longrightarrow> replace old new s = join new (pieces old s)"
proof (induction old s rule: pieces.induct)
  case (1 old)
  then show ?case by simp
next
  case (2 old c cs)
  show ?case
  proof (cases "prefix old (c # cs)")
    case True
    with 2 show ?thesis by (simp add: join_Cons pieces_not_Nil)
  next
    case False
    obtain p ps where pp: "pieces old cs = p # ps"
      using pieces_not_Nil by (cases "pieces old cs") auto
    with False 2 have "replace old new cs = join new (p # ps)" by auto
    with pp False 2 show ?thesis by (simp add: join_Cons_hd)
  qed
qed

lemma hd_pieces_prefix: "prefix (hd (pieces old s)) s"
  by (induction old s rule: pieces.induct) (auto split: list.splits)

lemma pieces_free: "old \<noteq> [] \<Longrightarrow> p \<in> set (pieces old s) \<Longrightarrow> \<not> contains old p"
proof (induction old s arbitrary: p rule: pieces.induct)
  case (1 old)
  then show ?case by simp
next
  case (2 old c cs)
  show ?case
  proof (cases "prefix old (c # cs)")
    case True
    with 2 show ?thesis by auto
  next
    case False
    obtain q qs where pp: "pieces old cs = q # qs"
      using pieces_not_Nil by (cases "pieces old cs") auto
    with False "2.prems" consider "p = c # q" | "p \<in> set qs" by auto
    then show ?thesis
    proof cases
      case 1
      have "prefix q cs" using hd_pieces_prefix[of old cs] pp by simp
      then have "\<not> prefix old (c # q)" using False by (meson Cons_prefix_Cons prefix_order.trans)
      moreover have "\<not> contains old q" using "2.IH"(2) False "2.prems"(1) pp by auto
      ultimately show ?thesis using 1 by simp
    next
      case 2
      then show ?thesis using "2.IH"(2) False "2.prems"(1) pp by auto
    qed
  qed
qed

lemma redact_eq: "redact m = (if contains ''SECRET'' m then replace ''SECRET'' ''[REDACTED]'' m else m)"
  by (simp add: redact_def message_callback_def Let_def)

lemma message_callback_result: "snd (message_callback lg m) = redact m"
  by (simp add: redact_def message_callback_def Let_def)

lemma redact_replace: "redact m = replace ''SECRET'' ''[REDACTED]'' m"
  by (simp add: redact_eq replace_absent)

lemma redact_free: "\<not> contains ''SECRET'' (redact m)"
  unfolding redact_replace by (rule replace_free) simp_all

text \<open>
  C6. The redactor replaces the literal, case-sensitive byte sequence \<open>SECRET\<close> wherever it
  occurs: the message is a sequence of stretches free of \<open>SECRET\<close> with \<open>SECRET\<close> between
  consecutive ones, and the result is the same stretches with \<open>[REDACTED]\<close> between them, so
  no occurrence is left. A message without \<open>SECRET\<close> comes back as it is. In particular
  \<open>secret\<close> is unchanged and \<open>SECRET\<close> becomes \<open>[REDACTED]\<close>.
\<close>

theorem redact_replaces_every_occurrence:
  "join ''SECRET'' (pieces ''SECRET'' m) = m
   \<and> (\<forall>p \<in> set (pieces ''SECRET'' m). \<not> contains ''SECRET'' p)
   \<and> redact m = join ''[REDACTED]'' (pieces ''SECRET'' m)
   \<and> \<not> contains ''SECRET'' (redact m)
   \<and> (\<not> contains ''SECRET'' m \<longrightarrow> redact m = m)
   \<and> redact ''secret'' = ''secret''
   \<and> redact ''SECRET'' = ''[REDACTED]''"
proof -
  have "join ''SECRET'' (pieces ''SECRET'' m) = m"
    by (rule join_pieces)
  moreover have "\<forall>p \<in> set (pieces ''SECRET'' m). \<not> contains ''SECRET'' p"
    using pieces_free[of "''SECRET''"] by blast
  moreover have "redact m = join ''[REDACTED]'' (pieces ''SECRET'' m)"
    unfolding redact_replace by (rule replace_pieces) simp
  moreover have "\<not> contains ''SECRET'' (redact m)"
    by (rule redact_free)
  moreover have "\<not> contains ''SECRET'' m \<longrightarrow> redact m = m"
    by (simp add: redact_eq)
  moreover have "redact ''secret'' = ''secret''"
    by (simp add: redact_eq)
  moreover have "redact ''SECRET'' = ''[REDACTED]''"
    by (simp add: redact_eq)
  ultimately show ?thesis by blast
qed

theorem redact_replaces_every_occurrence_witness:
  "\<not> contains ''SECRET'' ''fix typo'' \<and> redact ''fix typo'' = ''fix typo''
   \<and> ''a '' \<in> set (pieces ''SECRET'' ''a SECRET b'') \<and> \<not> contains ''SECRET'' ''a ''
   \<and> redact ''a SECRET b'' = ''a [REDACTED] b''"
proof -
  have a: "\<not> contains ''SECRET'' ''fix typo''" by simp
  have b: "pieces ''SECRET'' ''a SECRET b'' = [''a '', '' b'']" by simp
  from redact_replaces_every_occurrence[of "''fix typo''"] a
  have "redact ''fix typo'' = ''fix typo''" by blast
  moreover from redact_replaces_every_occurrence[of "''a SECRET b''"] b
  have "\<not> contains ''SECRET'' ''a '' \<and> redact ''a SECRET b'' = ''a [REDACTED] b''" by simp
  ultimately show ?thesis using a b by simp
qed

text \<open>C7. Redacting twice gives the same message as redacting once.\<close>

theorem redact_idempotent: "redact (redact m) = redact m"
proof -
  have "\<not> contains ''SECRET'' (redact m)" by (rule redact_free)
  then show ?thesis by (subst redact_eq) simp
qed

section \<open>Progress ledger\<close>

lemma init_globals_bind [simp]:
  "init_globals stats_file (bind_globals total_n seen count) = (total_n, seen, count)"
  by (simp add: init_globals_def bind_globals_def)

lemma init_globals_fresh [simp]:
  "init_globals stats_file fresh_globals = (read_total_commits stats_file, {}, 0)"
  by (simp add: init_globals_def fresh_globals_def)

lemma commit_callback_new:
  assumes "init_globals stats_file (globs w) = (total_n, seen, count)"
    and "hex c \<notin> seen" and "as_pyint total_n = Some t" and "progress_file w = Inr old"
  shows "\<exists>w'. commit_callback fmt1f stats_file w c = (Inr (), w')
           \<and> globs w' = bind_globals total_n (insert (hex c) seen) (count + 1)
           \<and> progress_file w' =
               Inr (old @ [progress_line (hex c) t (count + 1)
                             (percentage_text fmt1f (count + 1) (int_of t))])"
  using assms by (simp add: commit_callback_def Let_def)

lemma commit_callback_seen:
  assumes "init_globals stats_file (globs w) = (total_n, seen, count)" and "hex c \<in> seen"
  shows "\<exists>w'. commit_callback fmt1f stats_file w c = (Inr (), w')
           \<and> globs w' = bind_globals total_n seen count
           \<and> progress_file w' = progress_file w"
  using assms by (simp add: commit_callback_def Let_def)

lemma run_commits_lines:
  assumes "init_globals stats_file (globs w) = (total_n, seen, count)"
    and "as_pyint total_n = Some t" and "progress_file w = Inr old"
  shows "\<exists>w'. run_commits fmt1f stats_file w ids = (Inr (), w')
           \<and> init_globals stats_file (globs w')
               = (total_n, seen \<union> set (map hex ids),
                  count + int (length (first_visits seen (map hex ids))))
           \<and> (ids \<noteq> [] \<longrightarrow> globs w' = bind_globals total_n (seen \<union> set (map hex ids))
                  (count + int (length (first_visits seen (map hex ids)))))
           \<and> progress_file w'
               = Inr (old @ ledger_lines fmt1f t count (first_visits seen (map hex ids)))"
  using assms
proof (induction ids arbitrary: w seen count old)
  case Nil
  then show ?case by simp
next
  case (Cons c cs)
  show ?case
  proof (cases "hex c \<in> seen")
    case True
    from commit_callback_seen[OF Cons.prems(1) True, of fmt1f]
    obtain w1 where s: "commit_callback fmt1f stats_file w c = (Inr (), w1)"
      and g: "globs w1 = bind_globals total_n seen count"
      and p: "progress_file w1 = progress_file w" by blast
    have i: "init_globals stats_file (globs w1) = (total_n, seen, count)" by (simp add: g)
    from Cons.IH[OF i Cons.prems(2), of old] p Cons.prems(3)
    obtain w' where r: "run_commits fmt1f stats_file w1 cs = (Inr (), w')"
      and i': "init_globals stats_file (globs w')
             = (total_n, seen \<union> set (map hex cs), count + int (length (first_visits seen (map hex cs))))"
      and b': "cs \<noteq> [] \<longrightarrow> globs w' = bind_globals total_n (seen \<union> set (map hex cs))
                  (count + int (length (first_visits seen (map hex cs))))"
      and p': "progress_file w' = Inr (old @ ledger_lines fmt1f t count (first_visits seen (map hex cs)))"
      by auto
    have "globs w' = bind_globals total_n (seen \<union> set (map hex cs))
                  (count + int (length (first_visits seen (map hex cs))))"
    proof (cases cs)
      case Nil
      with r g show ?thesis by simp
    next
      case (Cons a list)
      with b' show ?thesis by simp
    qed
    with s r i' p' True show ?thesis by (auto simp: insert_absorb)
  next
    case False
    let ?l = "progress_line (hex c) t (count + 1) (percentage_text fmt1f (count + 1) (int_of t))"
    from commit_callback_new[OF Cons.prems(1) False Cons.prems(2,3), of fmt1f]
    obtain w1 where s: "commit_callback fmt1f stats_file w c = (Inr (), w1)"
      and g: "globs w1 = bind_globals total_n (insert (hex c) seen) (count + 1)"
      and p: "progress_file w1 = Inr (old @ [?l])" by blast
    have i: "init_globals stats_file (globs w1) = (total_n, insert (hex c) seen, count + 1)"
      by (simp add: g)
    from Cons.IH[OF i Cons.prems(2) p]
    obtain w' where r: "run_commits fmt1f stats_file w1 cs = (Inr (), w')"
      and i': "init_globals stats_file (globs w')
             = (total_n, insert (hex c) seen \<union> set (map hex cs),
                count + 1 + int (length (first_visits (insert (hex c) seen) (map hex cs))))"
      and b': "cs \<noteq> [] \<longrightarrow> globs w' = bind_globals total_n (insert (hex c) seen \<union> set (map hex cs))
                (count + 1 + int (length (first_visits (insert (hex c) seen) (map hex cs))))"
      and p': "progress_file w'
             = Inr ((old @ [?l]) @ ledger_lines fmt1f t (count + 1)
                      (first_visits (insert (hex c) seen) (map hex cs)))"
      by auto
    have "globs w' = bind_globals total_n (insert (hex c) seen \<union> set (map hex cs))
                (count + 1 + int (length (first_visits (insert (hex c) seen) (map hex cs))))"
    proof (cases cs)
      case Nil
      with r g show ?thesis by simp
    next
      case (Cons a list)
      with b' show ?thesis by simp
    qed
    with s r i' p' False show ?thesis by (auto simp: add.assoc)
  qed
qed

lemma first_visits_set: "set (first_visits seen hs) = set hs - seen"
  by (induction hs arbitrary: seen) auto

lemma first_visits_distinct: "distinct (first_visits seen hs)"
  by (induction hs arbitrary: seen) (auto simp: first_visits_set)

lemma first_visits_length: "length (first_visits {} hs) = card (set hs)"
  using distinct_card[OF first_visits_distinct, of "{}" hs] by (simp add: first_visits_set)

lemma ledger_lines_length [simp]: "length (ledger_lines fmt1f t n hs) = length hs"
  by (induction hs arbitrary: n) auto

lemma ledger_lines_nth:
  "k < length hs \<Longrightarrow>
     ledger_lines fmt1f t n hs ! k
       = progress_line (hs ! k) t (n + int k + 1) (percentage_text fmt1f (n + int k + 1) (int_of t))"
proof (induction hs arbitrary: n k)
  case Nil
  then show ?case by simp
next
  case (Cons h hs)
  show ?case
  proof (cases k)
    case 0
    then show ?thesis by simp
  next
    case (Suc j)
    with Cons.prems have "j < length hs" by simp
    from Cons.IH[OF this, of "n + 1"] Suc show ?thesis by (simp add: algebra_simps)
  qed
qed

lemma read_nat_snoc: "read_nat (s @ [c]) = 10 * read_nat s + (of_char c - 48)"
  by (simp add: read_nat_def)

lemma read_nat_digit: "d < 10 \<Longrightarrow> read_nat [digit d] = d"
  by (simp add: read_nat_def digit_def)

lemma read_nat_str_nat: "read_nat (str_nat n) = n"
proof (induction n rule: str_nat.induct)
  case (1 n)
  show ?case
  proof (cases "n < 10")
    case True
    then show ?thesis by (subst str_nat.simps) (simp add: read_nat_digit)
  next
    case False
    have d: "(of_char (digit (n mod 10)) :: nat) - 48 = n mod 10"
      by (simp add: digit_def)
    from False 1 have "read_nat (str_nat (n div 10)) = n div 10" by simp
    with False d show ?thesis
      by (subst str_nat.simps) (simp add: read_nat_snoc)
  qed
qed

lemma read_nat_str_int: "0 \<le> i \<Longrightarrow> read_nat (str_int i) = nat i"
  by (simp add: str_int_def read_nat_str_nat)

text \<open>
  C1. In a process run that starts with nothing bound, with a progress file that can be
  appended to and a total \<open>t\<close> that is an integer, any sequence of calls returns normally and
  appends exactly one line per distinct commit hash, in the order of first visit: the number
  of appended lines is the number of distinct hashes, and the line of the \<open>k\<close>-th distinct hash
  \<open>h\<close> (counting from 0) is the text \<open>h t seen k+1 processed p%\<close> followed by a newline, where
  \<open>k+1\<close> is printed in decimal (reading the numeral back gives \<open>k + 1\<close>) and \<open>p\<close> is \<open>0.0\<close> for a
  total that is not positive. So the count written for a hash is the number of distinct
  hashes seen up to and including it. A further call with a hash already seen in the run
  returns normally and leaves the progress file, the processed count and the set of seen
  hashes as they are.
\<close>

theorem record_once_per_distinct_commit:
  assumes "globs w = fresh_globals" and "progress_file w = Inr old"
    and "as_pyint (read_total_commits stats_file) = Some t"
  shows "\<exists>w' new.
           run_commits fmt1f stats_file w ids = (Inr (), w')
         \<and> progress_file w' = Inr (old @ new)
         \<and> length new = card (set (map hex ids))
         \<and> distinct (first_visits {} (map hex ids))
         \<and> set (first_visits {} (map hex ids)) = set (map hex ids)
         \<and> (\<forall>k < length new.
                new ! k = first_visits {} (map hex ids) ! k @ '' '' @ str_pyint t @ '' seen ''
                            @ str_int (int k + 1) @ '' processed ''
                            @ (if 0 < int_of t then fmt1f (int k + 1) (int_of t) else ''0.0'')
                            @ ''%'' @ [CHR 0x0A]
              \<and> read_nat (str_int (int k + 1)) = card (set (take (k + 1) (first_visits {} (map hex ids)))))
         \<and> (ids \<noteq> [] \<longrightarrow>
                processed_count (globs w') = Some (int (card (set (map hex ids))))
              \<and> seen_hashes (globs w') = Some (set (map hex ids)))
         \<and> (\<forall>c. hex c \<in> set (map hex ids) \<longrightarrow>
                (\<exists>w''. commit_callback fmt1f stats_file w' c = (Inr (), w'')
                     \<and> progress_file w'' = progress_file w'
                     \<and> processed_count (globs w'') = processed_count (globs w')
                     \<and> seen_hashes (globs w'') = seen_hashes (globs w')))"
proof -
  let ?fv = "first_visits {} (map hex ids)"
  have i: "init_globals stats_file (globs w) = (read_total_commits stats_file, {}, 0)"
    using assms(1) by simp
  from run_commits_lines[OF i assms(3) assms(2), of fmt1f ids]
  obtain w' where r: "run_commits fmt1f stats_file w ids = (Inr (), w')"
    and i': "init_globals stats_file (globs w')
               = (read_total_commits stats_file, set (map hex ids), int (length ?fv))"
    and b': "ids \<noteq> [] \<longrightarrow> globs w'
               = bind_globals (read_total_commits stats_file) (set (map hex ids)) (int (length ?fv))"
    and p': "progress_file w' = Inr (old @ ledger_lines fmt1f t 0 ?fv)"
    by auto
  let ?new = "ledger_lines fmt1f t 0 ?fv"
  have l: "length ?new = card (set (map hex ids))"
    by (simp add: first_visits_length)
  have dv: "distinct ?fv" by (rule first_visits_distinct)
  have n: "\<forall>k < length ?new.
             ?new ! k = ?fv ! k @ '' '' @ str_pyint t @ '' seen ''
                          @ str_int (int k + 1) @ '' processed ''
                          @ (if 0 < int_of t then fmt1f (int k + 1) (int_of t) else ''0.0'')
                          @ ''%'' @ [CHR 0x0A]
           \<and> read_nat (str_int (int k + 1)) = card (set (take (k + 1) ?fv))"
  proof (intro allI impI conjI)
    fix k assume k: "k < length ?new"
    then have kf: "k < length ?fv" by simp
    show "?new ! k = ?fv ! k @ '' '' @ str_pyint t @ '' seen ''
                          @ str_int (int k + 1) @ '' processed ''
                          @ (if 0 < int_of t then fmt1f (int k + 1) (int_of t) else ''0.0'')
                          @ ''%'' @ [CHR 0x0A]"
      using ledger_lines_nth[OF kf, of fmt1f t 0]
      by (simp add: progress_line_def percentage_text_def)
    have "distinct (take (k + 1) ?fv)" using dv by (rule distinct_take)
    then have "card (set (take (k + 1) ?fv)) = length (take (k + 1) ?fv)"
      by (rule distinct_card)
    also have "\<dots> = k + 1" using kf by simp
    finally have "card (set (take (k + 1) ?fv)) = k + 1" .
    moreover have "read_nat (str_int (int k + 1)) = nat (int k + 1)"
      by (rule read_nat_str_int) simp
    ultimately show "read_nat (str_int (int k + 1)) = card (set (take (k + 1) ?fv))" by simp
  qed
  have g: "ids \<noteq> [] \<longrightarrow>
             processed_count (globs w') = Some (int (card (set (map hex ids))))
           \<and> seen_hashes (globs w') = Some (set (map hex ids))"
    using b' by (simp add: bind_globals_def first_visits_length)
  have d: "\<forall>c. hex c \<in> set (map hex ids) \<longrightarrow>
             (\<exists>w''. commit_callback fmt1f stats_file w' c = (Inr (), w'')
                  \<and> progress_file w'' = progress_file w'
                  \<and> processed_count (globs w'') = processed_count (globs w')
                  \<and> seen_hashes (globs w'') = seen_hashes (globs w'))"
  proof (intro allI impI)
    fix c
    assume c: "hex c \<in> set (map hex ids)"
    then have "ids \<noteq> []" by auto
    with b' have g: "globs w'
        = bind_globals (read_total_commits stats_file) (set (map hex ids)) (int (length ?fv))"
      by simp
    from commit_callback_seen[OF i' c, of fmt1f] g
    show "\<exists>w''. commit_callback fmt1f stats_file w' c = (Inr (), w'')
            \<and> progress_file w'' = progress_file w'
            \<and> processed_count (globs w'') = processed_count (globs w')
            \<and> seen_hashes (globs w'') = seen_hashes (globs w')"
      by auto
  qed
  have s: "set ?fv = set (map hex ids)" by (simp add: first_visits_set)
  show ?thesis
    by (intro exI[of _ w'] exI[of _ ?new] conjI) (rule r p' l dv s n g d)+
qed

theorem record_once_per_distinct_commit_witness:
  "\<exists>w'. run_commits (\<lambda>c t. if c = 1 then ''10.0'' else ''20.0'')
           (Parsed (JObj [(u ''total_commits'', JInt 10)]))
           \<lparr>globs = fresh_globals, progress_file = Inr [], callback_log = None\<rparr>
           [[CHR 0xAB, CHR 0xC1, CHR 0x23], [CHR 0xAB, CHR 0xC1, CHR 0x23], [CHR 0xDE, CHR 0xF4],
            [CHR 0xAB, CHR 0xC1, CHR 0x23]] = (Inr (), w')
       \<and> progress_file w' = Inr [''abc123 10 seen 1 processed 10.0%\<newline>'',
                                  ''def4 10 seen 2 processed 20.0%\<newline>'']
       \<and> processed_count (globs w') = Some 2"
proof -
  let ?w = "\<lparr>globs = fresh_globals, progress_file = Inr [], callback_log = None\<rparr>"
  let ?stats = "Parsed (JObj [(u ''total_commits'', JInt 10)])"
  let ?a = "[CHR 0xAB, CHR 0xC1, CHR 0x23]"
  let ?d = "[CHR 0xDE, CHR 0xF4]"
  let ?ids = "[?a, ?a, ?d, ?a]"
  let ?fmt = "\<lambda>c t :: int. if c = 1 then ''10.0'' else ''20.0''"
  have a: "globs ?w = fresh_globals" by simp
  have b: "progress_file ?w = Inr []" by simp
  have c: "as_pyint (read_total_commits ?stats) = Some (PInt 10)"
    by (simp add: read_total_commits_def u_def)
  have hx: "hex ?a = ''abc123''" "hex ?d = ''def4''"
    by code_simp+
  have st: "str_int 10 = ''10''" "str_int 1 = ''1''" "str_int 2 = ''2''"
    by code_simp+
  have fv: "first_visits {} (map hex ?ids) = [''abc123'', ''def4'']"
    by (simp add: hx)
  have cd: "card (set (map hex ?ids)) = 2"
    using first_visits_length[of "map hex ?ids"] unfolding fv by simp
  from record_once_per_distinct_commit[OF a b c, of ?fmt ?ids]
  obtain w' new where r: "run_commits ?fmt ?stats ?w ?ids = (Inr (), w')"
    and p: "progress_file w' = Inr ([] @ new)"
    and l: "length new = card (set (map hex ?ids))"
    and n: "\<forall>k < length new.
                new ! k = first_visits {} (map hex ?ids) ! k @ '' '' @ str_pyint (PInt 10) @ '' seen ''
                            @ str_int (int k + 1) @ '' processed ''
                            @ (if 0 < int_of (PInt 10) then ?fmt (int k + 1) (int_of (PInt 10)) else ''0.0'')
                            @ ''%'' @ [CHR 0x0A]
              \<and> read_nat (str_int (int k + 1)) = card (set (take (k + 1) (first_visits {} (map hex ?ids))))"
    and g: "?ids \<noteq> [] \<longrightarrow>
                processed_count (globs w') = Some (int (card (set (map hex ?ids))))
              \<and> seen_hashes (globs w') = Some (set (map hex ?ids))"
    by (elim exE conjE) (rule that; assumption)
  from l have l2: "length new = 2" unfolding cd .
  from n l2 have n0: "new ! 0 = ''abc123 10 seen 1 processed 10.0%\<newline>''"
    unfolding fv by (simp add: st)
  from n l2 have "new ! 1 = [''abc123'', ''def4''] ! 1 @ '' '' @ str_pyint (PInt 10) @ '' seen ''
                            @ str_int (int 1 + 1) @ '' processed ''
                            @ (if 0 < int_of (PInt 10) then ?fmt (int 1 + 1) (int_of (PInt 10)) else ''0.0'')
                            @ ''%'' @ [CHR 0x0A]"
    unfolding fv by simp
  then have n1: "new ! 1 = ''def4 10 seen 2 processed 20.0%\<newline>''"
    by (simp add: st)
  have "new = [''abc123 10 seen 1 processed 10.0%\<newline>'', ''def4 10 seen 2 processed 20.0%\<newline>'']"
  proof (rule nth_equalityI)
    show "length new = length [''abc123 10 seen 1 processed 10.0%\<newline>'',
                               ''def4 10 seen 2 processed 20.0%\<newline>'']"
      using l2 by simp
  next
    fix i assume "i < length new"
    with l2 have "i = 0 \<or> i = 1" by auto
    with n0 n1 show "new ! i = [''abc123 10 seen 1 processed 10.0%\<newline>'',
                                ''def4 10 seen 2 processed 20.0%\<newline>''] ! i" by auto
  qed
  moreover from g have "processed_count (globs w') = Some 2" unfolding cd by simp
  ultimately show ?thesis using r p by simp
qed

lemma read_total_commits_failure: "read_json stats_file = Inl e \<Longrightarrow> read_total_commits stats_file = JInt 0"
  by (simp add: read_total_commits_def)

lemma read_total_commits_not_dict:
  "\<forall>kvs. j \<noteq> JObj kvs \<Longrightarrow> read_total_commits (Parsed j) = JInt 0"
  by (cases j) (simp_all add: read_total_commits_def)

lemma read_total_commits_no_key:
  "map_of kvs (u ''total_commits'') = None \<Longrightarrow> read_total_commits (Parsed (JObj kvs)) = JInt 0"
  by (simp add: read_total_commits_def)

lemma zero_line:
  "progress_line h (PInt 0) n (percentage_text fmt1f n 0)
     = h @ '' 0 seen '' @ str_int n @ '' processed 0.0%'' @ [CHR 0x0A]"
proof -
  have "str_int 0 = ''0''" by code_simp
  then show ?thesis by (simp add: progress_line_def percentage_text_def)
qed

lemma read_total_commits_value:
  "map_of kvs (u ''total_commits'') = Some v \<Longrightarrow> read_total_commits (Parsed (JObj kvs)) = v"
  by (simp add: read_total_commits_def)

lemma first_call_binds_total:
  assumes "globs w = fresh_globals"
  shows "total_commits (globs (snd (commit_callback fmt1f stats_file w c)))
           = Some (read_total_commits stats_file)"
  using assms
  by (simp add: commit_callback_def Let_def bind_globals_def split: option.splits sum.splits)

lemma later_call_keeps_total:
  assumes "total_commits (globs w) = Some tv"
  shows "total_commits (globs (snd (commit_callback fmt1f stats_file w c))) = Some tv"
  using assms
  by (simp add: commit_callback_def init_globals_def Let_def bind_globals_def
           split: option.splits sum.splits)

lemma first_call_line:
  assumes "globs w = fresh_globals" and "progress_file w = Inr old"
    and "as_pyint (read_total_commits stats_file) = Some t"
  shows "\<exists>w'. commit_callback fmt1f stats_file w c = (Inr (), w')
           \<and> progress_file w'
               = Inr (old @ [hex c @ '' '' @ str_pyint t @ '' seen '' @ str_int 1 @ '' processed ''
                              @ (if 0 < int_of t then fmt1f 1 (int_of t) else ''0.0'')
                              @ ''%'' @ [CHR 0x0A]])"
proof -
  have i: "init_globals stats_file (globs w) = (read_total_commits stats_file, {}, 0)"
    using assms(1) by simp
  have n: "hex c \<notin> {}" by simp
  from commit_callback_new[OF i n assms(3) assms(2), of fmt1f]
  show ?thesis by (auto simp: progress_line_def percentage_text_def)
qed

text \<open>
  C9. The first call of a process reads the total from the stats file: the value of the key
  \<open>total_commits\<close> when the file parses to an object that has it, and 0 when the file cannot be
  read or parsed. That value is what the call binds in \<open>globals()\<close> (later calls keep the bound
  value and do not read again) and, when it is an integer, what the first progress line
  prints. With a total of 0, a run that starts with nothing bound and can append to the
  progress file returns normally for any sequence of calls, and every line it appends
  reports \<open>0.0%\<close>.
\<close>

theorem stats_failure_defaults_to_zero:
  assumes "globs w = fresh_globals" and "progress_file w = Inr old"
  shows "(stats_file = Parsed (JObj kvs) \<and> map_of kvs (u ''total_commits'') = Some v \<longrightarrow>
            read_total_commits stats_file = v)
       \<and> (read_json stats_file = Inl e \<longrightarrow> read_total_commits stats_file = JInt 0)
       \<and> total_commits (globs (snd (commit_callback fmt1f stats_file w c)))
            = Some (read_total_commits stats_file)
       \<and> (\<forall>(w2 :: ledger) tv. total_commits (globs w2) = Some tv \<longrightarrow>
            total_commits (globs (snd (commit_callback fmt1f stats_file w2 c))) = Some tv)
       \<and> (as_pyint (read_total_commits stats_file) = Some t \<longrightarrow>
            (\<exists>w'. commit_callback fmt1f stats_file w c = (Inr (), w')
               \<and> progress_file w'
                   = Inr (old @ [hex c @ '' '' @ str_pyint t @ '' seen '' @ str_int 1
                                  @ '' processed ''
                                  @ (if 0 < int_of t then fmt1f 1 (int_of t) else ''0.0'')
                                  @ ''%'' @ [CHR 0x0A]])))
       \<and> (read_total_commits stats_file = JInt 0 \<longrightarrow>
            (\<exists>w' new. run_commits fmt1f stats_file w ids = (Inr (), w')
               \<and> (ids \<noteq> [] \<longrightarrow> total_commits (globs w') = Some (JInt 0))
               \<and> progress_file w' = Inr (old @ new)
               \<and> length new = card (set (map hex ids))
               \<and> (\<forall>k < length new.
                      new ! k = first_visits {} (map hex ids) ! k @ '' 0 seen ''
                                  @ str_int (int k + 1) @ '' processed 0.0%'' @ [CHR 0x0A])))"
proof (intro conjI impI allI)
  assume "stats_file = Parsed (JObj kvs) \<and> map_of kvs (u ''total_commits'') = Some v"
  then show "read_total_commits stats_file = v" by (simp add: read_total_commits_value)
next
  assume "read_json stats_file = Inl e"
  then show "read_total_commits stats_file = JInt 0" by (rule read_total_commits_failure)
next
  show "total_commits (globs (snd (commit_callback fmt1f stats_file w c)))
          = Some (read_total_commits stats_file)"
    by (rule first_call_binds_total[OF assms(1)])
next
  fix w2 :: ledger and tv assume "total_commits (globs w2) = Some tv"
  then show "total_commits (globs (snd (commit_callback fmt1f stats_file w2 c))) = Some tv"
    by (rule later_call_keeps_total)
next
  assume "as_pyint (read_total_commits stats_file) = Some t"
  from first_call_line[OF assms this, of fmt1f c]
  show "\<exists>w'. commit_callback fmt1f stats_file w c = (Inr (), w')
           \<and> progress_file w'
               = Inr (old @ [hex c @ '' '' @ str_pyint t @ '' seen '' @ str_int 1 @ '' processed ''
                              @ (if 0 < int_of t then fmt1f 1 (int_of t) else ''0.0'')
                              @ ''%'' @ [CHR 0x0A]])" .
next
  assume z: "read_total_commits stats_file = JInt 0"
  let ?fv = "first_visits {} (map hex ids)"
  let ?new = "ledger_lines fmt1f (PInt 0) 0 ?fv"
  have i: "init_globals stats_file (globs w) = (JInt 0, {}, 0)"
    using assms(1) z by simp
  have t: "as_pyint (JInt 0) = Some (PInt 0)" by simp
  from run_commits_lines[OF i t assms(2), of fmt1f ids]
  obtain w' where r: "run_commits fmt1f stats_file w ids = (Inr (), w')"
    and b': "ids \<noteq> [] \<longrightarrow> globs w' = bind_globals (JInt 0) (set (map hex ids)) (int (length ?fv))"
    and p': "progress_file w' = Inr (old @ ?new)"
    by auto
  have g: "ids \<noteq> [] \<longrightarrow> total_commits (globs w') = Some (JInt 0)"
    using b' by (simp add: bind_globals_def)
  have l: "length ?new = card (set (map hex ids))"
    by (simp add: first_visits_length)
  have n: "\<forall>k < length ?new.
             ?new ! k = ?fv ! k @ '' 0 seen '' @ str_int (int k + 1) @ '' processed 0.0%'' @ [CHR 0x0A]"
    by (simp add: ledger_lines_nth zero_line)
  from r g p' l n
  show "\<exists>w' new. run_commits fmt1f stats_file w ids = (Inr (), w')
          \<and> (ids \<noteq> [] \<longrightarrow> total_commits (globs w') = Some (JInt 0))
          \<and> progress_file w' = Inr (old @ new)
          \<and> length new = card (set (map hex ids))
          \<and> (\<forall>k < length new.
                 new ! k = first_visits {} (map hex ids) ! k @ '' 0 seen ''
                             @ str_int (int k + 1) @ '' processed 0.0%'' @ [CHR 0x0A])"
    by blast
qed

theorem stats_failure_defaults_to_zero_witness:
  "read_total_commits (Parsed (JObj [(u ''total_commits'', JInt 10)])) = JInt 10
   \<and> (\<exists>w'. commit_callback (\<lambda>c t. ''10.0'') (Parsed (JObj [(u ''total_commits'', JInt 10)]))
              \<lparr>globs = fresh_globals, progress_file = Inr [], callback_log = None\<rparr> [CHR 0xAB]
            = (Inr (), w')
          \<and> progress_file w' = Inr [''ab 10 seen 1 processed 10.0%\<newline>''])
   \<and> read_json Malformed = Inl JSONDecodeError \<and> read_total_commits Malformed = JInt 0
   \<and> total_commits (globs (snd (commit_callback (\<lambda>c t. ''10.0'') Malformed
        \<lparr>globs = fresh_globals, progress_file = Inr [], callback_log = None\<rparr> [CHR 0xAB])))
        = Some (JInt 0)
   \<and> total_commits (globs (snd (commit_callback (\<lambda>c t. ''10.0'') Malformed
        \<lparr>globs = bind_globals (JInt 10) {} 0, progress_file = Inr [], callback_log = None\<rparr>
        [CHR 0xAB])))
        = Some (JInt 10)
   \<and> (\<exists>w'. run_commits (\<lambda>c t. ''10.0'') Malformed
              \<lparr>globs = fresh_globals, progress_file = Inr [], callback_log = None\<rparr> [[CHR 0xAB]]
            = (Inr (), w')
          \<and> total_commits (globs w') = Some (JInt 0)
          \<and> progress_file w' = Inr [''ab 0 seen 1 processed 0.0%\<newline>''])"
proof -
  let ?w = "\<lparr>globs = fresh_globals, progress_file = Inr [], callback_log = None\<rparr>"
  let ?w2 = "\<lparr>globs = bind_globals (JInt 10) {} 0, progress_file = Inr [], callback_log = None\<rparr>"
  let ?obj = "Parsed (JObj [(u ''total_commits'', JInt 10)])"
  let ?fmt = "\<lambda>c t :: int. ''10.0''"
  have a: "globs ?w = fresh_globals" by simp
  have b: "progress_file ?w = Inr []" by simp
  have f: "read_json Malformed = Inl JSONDecodeError" by simp
  have k: "?obj = Parsed (JObj [(u ''total_commits'', JInt 10)])
             \<and> map_of [(u ''total_commits'', JInt 10)] (u ''total_commits'') = Some (JInt 10)"
    by simp
  have hx: "hex [CHR 0xAB] = ''ab''" by code_simp
  have st: "str_int 1 = ''1''" "str_int 10 = ''10''" by code_simp+
  note th1 = stats_failure_defaults_to_zero[OF a b,
      of ?obj "[(u ''total_commits'', JInt 10)]" "JInt 10" JSONDecodeError ?fmt "[CHR 0xAB]"
         "PInt 10" "[[CHR 0xAB]]"]
  note th2 = stats_failure_defaults_to_zero[OF a b,
      of Malformed "[]" JNull JSONDecodeError ?fmt "[CHR 0xAB]" "PInt 0" "[[CHR 0xAB]]"]
  from th1 k have v: "read_total_commits ?obj = JInt 10" by blast
  then have "as_pyint (read_total_commits ?obj) = Some (PInt 10)" by simp
  with th1 have "\<exists>w'. commit_callback ?fmt ?obj ?w [CHR 0xAB] = (Inr (), w')
               \<and> progress_file w'
                   = Inr ([] @ [hex [CHR 0xAB] @ '' '' @ str_pyint (PInt 10) @ '' seen '' @ str_int 1
                                  @ '' processed ''
                                  @ (if 0 < int_of (PInt 10) then ?fmt 1 (int_of (PInt 10)) else ''0.0'')
                                  @ ''%'' @ [CHR 0x0A]])"
    by (elim conjE) (erule (1) impE)
  then have p1: "\<exists>w'. commit_callback ?fmt ?obj ?w [CHR 0xAB] = (Inr (), w')
          \<and> progress_file w' = Inr [''ab 10 seen 1 processed 10.0%\<newline>'']"
    by (simp add: hx st)
  from th2 f have z: "read_total_commits Malformed = JInt 0" by blast
  from th2 z have p2: "total_commits (globs (snd (commit_callback ?fmt Malformed ?w [CHR 0xAB])))
                         = Some (JInt 0)" by simp
  have bt: "total_commits (globs ?w2) = Some (JInt 10)" by (simp add: bind_globals_def)
  from th2 have "\<forall>(w2 :: ledger) tv. total_commits (globs w2) = Some tv \<longrightarrow>
            total_commits (globs (snd (commit_callback ?fmt Malformed w2 [CHR 0xAB]))) = Some tv"
    by (elim conjE)
  with bt have p3: "total_commits (globs (snd (commit_callback ?fmt Malformed ?w2 [CHR 0xAB])))
                      = Some (JInt 10)" by blast
  from th2 z
  obtain w' new where r: "run_commits ?fmt Malformed ?w [[CHR 0xAB]] = (Inr (), w')"
    and g: "total_commits (globs w') = Some (JInt 0)"
    and p: "progress_file w' = Inr ([] @ new)"
    and l: "length new = card (set (map hex [[CHR 0xAB]]))"
    and n: "\<forall>k < length new.
              new ! k = first_visits {} (map hex [[CHR 0xAB]]) ! k @ '' 0 seen ''
                          @ str_int (int k + 1) @ '' processed 0.0%'' @ [CHR 0x0A]"
    by blast
  from l have l1: "length new = 1" by simp
  with n have "new ! 0 = first_visits {} (map hex [[CHR 0xAB]]) ! 0 @ '' 0 seen ''
                          @ str_int 1 @ '' processed 0.0%'' @ [CHR 0x0A]"
    by simp
  then have "new ! 0 = ''ab 0 seen 1 processed 0.0%\<newline>''"
    by (simp add: hx st)
  with l1 have "new = [''ab 0 seen 1 processed 0.0%\<newline>'']"
    by (cases new) auto
  with r g p have p4: "\<exists>w'. run_commits ?fmt Malformed ?w [[CHR 0xAB]] = (Inr (), w')
          \<and> total_commits (globs w') = Some (JInt 0)
          \<and> progress_file w' = Inr [''ab 0 seen 1 processed 0.0%\<newline>'']" by simp
  from v p1 f z p2 p3 p4 show ?thesis by simp
qed

section \<open>Text lemmas\<close>

lemma splitlines_Nil_iff [simp]: "splitlines s = [] \<longleftrightarrow> s = []"
  by (cases s rule: splitlines.cases) (auto split: list.splits)

lemma splitlines_no_break: "l \<in> set (splitlines s) \<Longrightarrow> c \<in> set l \<Longrightarrow> \<not> linebreak c"
proof (induction s arbitrary: l rule: splitlines.induct)
  case 1
  then show ?case by simp
next
  case (2 c0)
  then show ?case by (auto split: if_splits)
next
  case (3 c0 d ds)
  show ?case
  proof (cases "c0 = 0x0D \<and> d = 0x0A")
    case True
    with "3.prems" "3.IH"(1) show ?thesis by auto
  next
    case False
    note nf = this
    show ?thesis
    proof (cases "linebreak c0")
      case True
      with nf "3.prems" "3.IH"(2) show ?thesis by auto
    next
      case False
      obtain l0 ls where sp: "splitlines (d # ds) = l0 # ls"
        by (cases "splitlines (d # ds)") auto
      with nf False "3.prems" have "l = c0 # l0 \<or> l \<in> set ls" by auto
      then show ?thesis
      proof
        assume "l = c0 # l0"
        with "3.prems"(2) have "c = c0 \<or> c \<in> set l0" by auto
        then show ?thesis using False "3.IH"(3)[OF nf False, of l0] sp by auto
      next
        assume "l \<in> set ls"
        then show ?thesis using "3.IH"(3)[OF nf False, of l] sp "3.prems"(2) by auto
      qed
    qed
  qed
qed

lemma splitlines_subset: "l \<in> set (splitlines s) \<Longrightarrow> set l \<subseteq> set s"
proof (induction s arbitrary: l rule: splitlines.induct)
  case 1
  then show ?case by simp
next
  case (2 c0)
  then show ?case by (auto split: if_splits)
next
  case (3 c0 d ds)
  show ?case
  proof (cases "c0 = 0x0D \<and> d = 0x0A")
    case True
    with "3.prems" have "l = [] \<or> l \<in> set (splitlines ds)" by auto
    then show ?thesis using "3.IH"(1)[OF True, of l] by auto
  next
    case False
    note nf = this
    show ?thesis
    proof (cases "linebreak c0")
      case True
      with nf "3.prems" have "l = [] \<or> l \<in> set (splitlines (d # ds))" by auto
      then show ?thesis using "3.IH"(2)[OF nf True, of l] by auto
    next
      case False
      obtain l0 ls where sp: "splitlines (d # ds) = l0 # ls"
        by (cases "splitlines (d # ds)") auto
      with nf False "3.prems" have "l = c0 # l0 \<or> l \<in> set ls" by auto
      then show ?thesis
      proof
        assume "l = c0 # l0"
        then show ?thesis using "3.IH"(3)[OF nf False, of l0] sp by auto
      next
        assume "l \<in> set ls"
        then show ?thesis using "3.IH"(3)[OF nf False, of l] sp by auto
      qed
    qed
  qed
qed

lemma scalar2:
  assumes "0xC2 \<le> n" "n \<le> 0xDF" "cont b1"
  shows "scalar ((n - 0xC0) * 64 + low6 b1)"
  using assms unfolding scalar_def cont_def low6_def by arith

lemma scalar3:
  assumes "0xE0 \<le> n" "n \<le> 0xEF" "cont b1" "cont b2" "n = 0xED \<longrightarrow> (of_char b1 :: nat) < 0xA0"
  shows "scalar ((n - 0xE0) * 4096 + low6 b1 * 64 + low6 b2)"
proof -
  have b1: "low6 b1 \<le> 63" and b2: "low6 b2 \<le> 63"
    using assms(3,4) unfolding cont_def low6_def by auto
  consider "n \<le> 0xEC" | "n = 0xED" | "0xEE \<le> n" by linarith
  then show ?thesis
  proof cases
    case 1
    then have "n - 0xE0 \<le> 12" by simp
    then have "(n - 0xE0) * 4096 \<le> 12 * 4096" by simp
    with b1 b2 show ?thesis unfolding scalar_def by simp
  next
    case 2
    with assms(5) have "low6 b1 \<le> 31" unfolding low6_def by simp
    with 2 b2 show ?thesis unfolding scalar_def by simp
  next
    case 3
    then have "14 \<le> n - 0xE0" and "n - 0xE0 \<le> 15" using assms(2) by arith+
    then have "14 * 4096 \<le> (n - 0xE0) * 4096" and "(n - 0xE0) * 4096 \<le> 15 * 4096" by simp_all
    with b1 b2 show ?thesis unfolding scalar_def by simp
  qed
qed

lemma scalar4:
  assumes "0xF0 \<le> n" "n \<le> 0xF4" "cont b1" "cont b2" "cont b3"
    "n = 0xF0 \<longrightarrow> 0x90 \<le> (of_char b1 :: nat)" "n = 0xF4 \<longrightarrow> (of_char b1 :: nat) < 0x90"
  shows "scalar ((n - 0xF0) * 262144 + low6 b1 * 4096 + low6 b2 * 64 + low6 b3)"
proof -
  have b1: "low6 b1 \<le> 63" and b2: "low6 b2 \<le> 63" and b3: "low6 b3 \<le> 63"
    using assms(3,4,5) unfolding cont_def low6_def by auto
  consider "n = 0xF0" | "0xF1 \<le> n \<and> n \<le> 0xF3" | "n = 0xF4" using assms(1,2) by linarith
  then show ?thesis
  proof cases
    case 1
    with assms(6) have "16 \<le> low6 b1" unfolding low6_def by simp
    with 1 b1 b2 b3 show ?thesis unfolding scalar_def by simp
  next
    case 2
    then have "1 \<le> n - 0xF0" and "n - 0xF0 \<le> 3" by arith+
    then have "1 * 262144 \<le> (n - 0xF0) * 262144" and "(n - 0xF0) * 262144 \<le> 3 * 262144"
      by simp_all
    with b1 b2 b3 show ?thesis unfolding scalar_def by simp
  next
    case 3
    with assms(7) have "low6 b1 \<le> 15" unfolding low6_def by simp
    with 3 b2 b3 show ?thesis unfolding scalar_def by simp
  qed
qed

lemma decode_step:
  "utf8_decode (b # bs) = utf8_decode bs
   \<or> (\<exists>x r. utf8_decode (b # bs) = x # utf8_decode r \<and> scalar x \<and> length r \<le> length bs)"
proof -
  let ?n = "of_char b :: nat"
  note eq = utf8_decode.simps(2)[of b bs]
  note [simp del] = utf8_decode.simps
  consider "?n < 0x80" | "0xC2 \<le> ?n \<and> ?n \<le> 0xDF" | "0xE0 \<le> ?n \<and> ?n \<le> 0xEF"
    | "0xF0 \<le> ?n \<and> ?n \<le> 0xF4" | "\<not> ?n < 0x80 \<and> \<not> (0xC2 \<le> ?n \<and> ?n \<le> 0xDF) \<and> \<not> (0xE0 \<le> ?n \<and> ?n \<le> 0xEF) \<and> \<not> (0xF0 \<le> ?n \<and> ?n \<le> 0xF4)"
    by linarith
  then show ?thesis
  proof cases
    case 1
    then have "utf8_decode (b # bs) = ?n # utf8_decode bs" by (subst eq) (simp add: Let_def)
    moreover have "scalar ?n" using 1 by (simp add: scalar_def)
    ultimately show ?thesis by blast
  next
    case 2
    show ?thesis
    proof (cases bs)
      case Nil
      with 2 show ?thesis by (subst eq) (simp add: Let_def)
    next
      case (Cons b1 r)
      show ?thesis
      proof (cases "cont b1")
        case True
        with 2 Cons have "utf8_decode (b # bs) = ((?n - 0xC0) * 64 + low6 b1) # utf8_decode r"
          by (subst eq) (simp add: Let_def)
        moreover have "scalar ((?n - 0xC0) * 64 + low6 b1)" using 2 True by (simp add: scalar2)
        ultimately show ?thesis using Cons by auto
      next
        case False
        with 2 Cons show ?thesis by (subst eq) (simp add: Let_def)
      qed
    qed
  next
    case 3
    then have n3: "\<not> ?n < 0x80" "\<not> (0xC2 \<le> ?n \<and> ?n \<le> 0xDF)" by simp_all
    show ?thesis
    proof (cases bs)
      case Nil
      with 3 n3 show ?thesis by (subst eq) (simp add: Let_def)
    next
      case c1: (Cons b1 r1)
      show ?thesis
      proof (cases r1)
        case Nil
        with 3 n3 c1 show ?thesis by (subst eq) (simp add: Let_def)
      next
        case c2: (Cons b2 r)
        let ?ok = "cont b1 \<and> (?n = 0xE0 \<longrightarrow> 0xA0 \<le> (of_char b1 :: nat))
                  \<and> (?n = 0xED \<longrightarrow> (of_char b1 :: nat) < 0xA0) \<and> cont b2"
        show ?thesis
        proof (cases ?ok)
          case True
          with 3 n3 c1 c2
          have "utf8_decode (b # bs) = ((?n - 0xE0) * 4096 + low6 b1 * 64 + low6 b2) # utf8_decode r"
            by (subst eq) (simp add: Let_def)
          moreover have "scalar ((?n - 0xE0) * 4096 + low6 b1 * 64 + low6 b2)"
            using 3 True by (intro scalar3) simp_all
          ultimately show ?thesis using c1 c2 by auto
        next
          case False
          with 3 n3 c1 c2 have "utf8_decode (b # bs) = utf8_decode bs"
            by (subst eq) (auto simp add: Let_def)
          then show ?thesis by blast
        qed
      qed
    qed
  next
    case 4
    then have n4: "\<not> ?n < 0x80" "\<not> (0xC2 \<le> ?n \<and> ?n \<le> 0xDF)" "\<not> (0xE0 \<le> ?n \<and> ?n \<le> 0xEF)"
      by simp_all
    show ?thesis
    proof (cases bs)
      case Nil
      with 4 n4 show ?thesis by (subst eq) (simp add: Let_def)
    next
      case c1: (Cons b1 r1)
      show ?thesis
      proof (cases r1)
        case Nil
        with 4 n4 c1 show ?thesis by (subst eq) (simp add: Let_def)
      next
        case c2: (Cons b2 r2)
        show ?thesis
        proof (cases r2)
          case Nil
          with 4 n4 c1 c2 show ?thesis by (subst eq) (simp add: Let_def)
        next
          case c3: (Cons b3 r)
          let ?ok = "cont b1 \<and> (?n = 0xF0 \<longrightarrow> 0x90 \<le> (of_char b1 :: nat))
                  \<and> (?n = 0xF4 \<longrightarrow> (of_char b1 :: nat) < 0x90) \<and> cont b2 \<and> cont b3"
          show ?thesis
          proof (cases ?ok)
            case True
            with 4 n4 c1 c2 c3
            have "utf8_decode (b # bs)
                   = ((?n - 0xF0) * 262144 + low6 b1 * 4096 + low6 b2 * 64 + low6 b3) # utf8_decode r"
              by (subst eq) (simp add: Let_def)
            moreover have "scalar ((?n - 0xF0) * 262144 + low6 b1 * 4096 + low6 b2 * 64 + low6 b3)"
              using 4 True by (intro scalar4) simp_all
            ultimately show ?thesis using c1 c2 c3 by auto
          next
            case False
            with 4 n4 c1 c2 c3 have "utf8_decode (b # bs) = utf8_decode bs"
              by (subst eq) (auto simp add: Let_def)
            then show ?thesis by blast
          qed
        qed
      qed
    qed
  next
    case 5
    then have n5: "(?n < 0x80) = False" "(0xC2 \<le> ?n \<and> ?n \<le> 0xDF) = False"
      "(0xE0 \<le> ?n \<and> ?n \<le> 0xEF) = False" "(0xF0 \<le> ?n \<and> ?n \<le> 0xF4) = False"
      by simp_all
    have "utf8_decode (b # bs) = utf8_decode bs"
      by (subst eq) (simp only: Let_def n5 if_False)
    then show ?thesis by blast
  qed
qed

lemma decode_scalar: "c \<in> set (utf8_decode bs) \<Longrightarrow> scalar c"
proof (induction "length bs" arbitrary: bs rule: less_induct)
  case less
  show ?case
  proof (cases bs)
    case Nil
    with less.prems show ?thesis by simp
  next
    case (Cons b r0)
    from decode_step[of b r0]
    consider "utf8_decode (b # r0) = utf8_decode r0"
      | x r where "utf8_decode (b # r0) = x # utf8_decode r" "scalar x" "length r \<le> length r0"
      by blast
    then show ?thesis
    proof cases
      case 1
      with less.prems Cons have "c \<in> set (utf8_decode r0)" by simp
      with less.hyps[of r0] Cons show ?thesis by simp
    next
      case 2
      with less.prems Cons have "c = x \<or> c \<in> set (utf8_decode r)" by simp
      with 2 less.hyps[of r] Cons show ?thesis by auto
    qed
  qed
qed

lemma encode_char_scalar:
  assumes "scalar c"
  shows "\<exists>bs. encode_char c = Inr bs \<and> bs \<noteq> []
           \<and> (c < 0x80 \<longrightarrow> bs = [char_of c])
           \<and> (0x80 \<le> c \<longrightarrow> (\<forall>b \<in> set bs. 0x80 \<le> (of_char b :: nat)))"
proof -
  consider "c < 0x80" | "0x80 \<le> c \<and> c < 0x800" | "0x800 \<le> c \<and> c < 0x10000" | "0x10000 \<le> c"
    by linarith
  then show ?thesis
  proof cases
    case 1
    then show ?thesis by (simp add: encode_char_def)
  next
    case 2
    then have "c div 64 < 32" by arith
    then have "(192 + c div 64) mod 256 = 192 + c div 64" by simp
    moreover have "(128 + c mod 64) mod 256 = 128 + c mod 64" by simp
    ultimately show ?thesis using 2 by (simp add: encode_char_def)
  next
    case 3
    with assms have ns: "\<not> (0xD800 \<le> c \<and> c \<le> 0xDFFF)" by (auto simp add: scalar_def)
    from 3 have "c div 4096 < 16" by arith
    then have "(224 + c div 4096) mod 256 = 224 + c div 4096" by simp
    moreover have "(128 + c div 64 mod 64) mod 256 = 128 + c div 64 mod 64" by simp
    moreover have "(128 + c mod 64) mod 256 = 128 + c mod 64" by simp
    ultimately show ?thesis using 3 ns by (simp add: encode_char_def)
  next
    case 4
    with assms have ns: "\<not> (0xD800 \<le> c \<and> c \<le> 0xDFFF)" and "c < 0x110000"
      by (auto simp add: scalar_def)
    then have "c div 262144 < 16" by arith
    then have "(240 + c div 262144) mod 256 = 240 + c div 262144" by simp
    moreover have "(128 + c div 4096 mod 64) mod 256 = 128 + c div 4096 mod 64" by simp
    moreover have "(128 + c div 64 mod 64) mod 256 = 128 + c div 64 mod 64" by simp
    moreover have "(128 + c mod 64) mod 256 = 128 + c mod 64" by simp
    ultimately show ?thesis using 4 ns by (simp add: encode_char_def)
  qed
qed

lemma utf8_encode_append:
  "utf8_encode (a @ b) =
     (case utf8_encode a of Inl e \<Rightarrow> Inl e
      | Inr x \<Rightarrow> (case utf8_encode b of Inl e \<Rightarrow> Inl e | Inr y \<Rightarrow> Inr (x @ y)))"
  by (induction a) (auto split: sum.splits)

lemma utf8_encode_scalar:
  "\<forall>c \<in> set s. scalar c \<Longrightarrow> \<exists>bs. utf8_encode s = Inr bs"
proof (induction s)
  case Nil
  then show ?case by simp
next
  case (Cons c s)
  then obtain bs where "utf8_encode s = Inr bs" by auto
  moreover obtain x where "encode_char c = Inr x" using encode_char_scalar[of c] Cons.prems by auto
  ultimately show ?case by simp
qed

lemma utf8_encode_ascii:
  "\<forall>c \<in> set s. scalar c \<Longrightarrow> utf8_encode s = Inr bs \<Longrightarrow> b \<in> set bs
     \<Longrightarrow> (of_char b :: nat) < 0x80 \<Longrightarrow> of_char b \<in> set s"
proof (induction s arbitrary: bs)
  case Nil
  then show ?case by simp
next
  case (Cons c s)
  from encode_char_scalar[of c] Cons.prems(1)
  obtain x where x: "encode_char c = Inr x"
    and lo: "c < 0x80 \<longrightarrow> x = [char_of c]"
    and hi: "0x80 \<le> c \<longrightarrow> (\<forall>b \<in> set x. 0x80 \<le> (of_char b :: nat))" by auto
  from Cons.prems(1) obtain y where y: "utf8_encode s = Inr y"
    using utf8_encode_scalar[of s] by auto
  with x Cons.prems(2) have bs: "bs = x @ y" by simp
  with Cons.prems(3) consider "b \<in> set x" | "b \<in> set y" by auto
  then show ?case
  proof cases
    case 1
    show ?thesis
    proof (cases "c < 0x80")
      case True
      with lo 1 have "b = char_of c" by simp
      with True show ?thesis by simp
    next
      case False
      with hi 1 Cons.prems(4) show ?thesis by auto
    qed
  next
    case 2
    with Cons.IH[OF _ y] Cons.prems show ?thesis by auto
  qed
qed

lemma encode_char_last:
  assumes "scalar c" "encode_char c = Inr x"
  shows "x \<noteq> [] \<and> (last x = CHR 0x0A \<longleftrightarrow> c = 0x0A)"
proof -
  from encode_char_scalar[OF assms(1)] assms(2)
  have ne: "x \<noteq> []" and lo: "c < 0x80 \<longrightarrow> x = [char_of c]"
    and hi: "0x80 \<le> c \<longrightarrow> (\<forall>b \<in> set x. 0x80 \<le> (of_char b :: nat))" by auto
  show ?thesis
  proof (cases "c < 0x80")
    case True
    with lo have x: "x = [char_of c]" by simp
    have "char_of c = CHR 0x0A \<longleftrightarrow> c = 0x0A"
    proof
      assume "char_of c = CHR 0x0A"
      then have "(of_char (char_of c) :: nat) = of_char (CHR 0x0A)" by simp
      with True show "c = 0x0A" by simp
    next
      have "char_of (0x0A :: nat) = CHR 0x0A" by code_simp
      moreover assume "c = 0x0A"
      ultimately show "char_of c = CHR 0x0A" by simp
    qed
    with x show ?thesis by simp
  next
    case False
    with hi ne have "0x80 \<le> (of_char (last x) :: nat)" by simp
    then have "last x \<noteq> CHR 0x0A" by auto
    with False ne show ?thesis by auto
  qed
qed

lemma utf8_encode_last:
  assumes "\<forall>c \<in> set s. scalar c" "utf8_encode s = Inr bs"
  shows "(bs \<noteq> [] \<and> last bs = CHR 0x0A) \<longleftrightarrow> (s \<noteq> [] \<and> last s = 0x0A)"
proof (cases s rule: rev_cases)
  case Nil
  with assms(2) show ?thesis by simp
next
  case (snoc s0 c)
  with assms(1) have sc: "scalar c" and s0: "\<forall>c \<in> set s0. scalar c" by auto
  from utf8_encode_scalar[OF s0] obtain y where y: "utf8_encode s0 = Inr y" by auto
  from encode_char_scalar[OF sc] obtain x where x: "encode_char c = Inr x" by auto
  from x have "utf8_encode [c] = Inr x" by simp
  with y snoc assms(2) have bs: "bs = y @ x" by (simp add: utf8_encode_append)
  from encode_char_last[OF sc x] bs snoc show ?thesis by simp
qed

lemma join_snoc: "join sep (ls @ [l]) = (if ls = [] then l else join sep ls @ sep @ l)"
  by (induction sep ls rule: join.induct) auto

lemma join_ends_newline:
  assumes "\<forall>l \<in> set ls. (0x0A::nat) \<notin> set l"
  shows "(join [0x0A] ls \<noteq> [] \<and> last (join [0x0A] ls) = 0x0A) \<longleftrightarrow> (2 \<le> length ls \<and> last ls = [])"
proof (cases ls rule: rev_cases)
  case Nil
  then show ?thesis by simp
next
  case (snoc ls0 l)
  with assms have l: "(0x0A::nat) \<notin> set l" by simp
  show ?thesis
  proof (cases "ls0 = []")
    case True
    with snoc l show ?thesis by (cases l rule: rev_cases) auto
  next
    case False
    then have "2 \<le> length ls" using snoc by (cases ls0) auto
    moreover have "join [0x0A] ls = join [0x0A] ls0 @ [0x0A] @ l"
      using snoc False by (simp add: join_snoc)
    ultimately show ?thesis using snoc l by (cases l rule: rev_cases) auto
  qed
qed

lemma decode_ascii_step:
  "(of_char b :: nat) < 0x80 \<Longrightarrow> utf8_decode (b # bs) = of_char b # utf8_decode bs"
  by (simp add: Let_def)

lemma d4096: "(c::nat) div 4096 = c div 64 div 64"
  by (simp add: div_mult2_eq[symmetric])

lemma d262144: "(c::nat) div 262144 = c div 64 div 64 div 64"
  by (simp add: div_mult2_eq[symmetric])

lemma split3:
  fixes c :: nat
  obtains q1 r1 r where "c div 4096 = q1" "c div 64 mod 64 = r1" "c mod 64 = r"
    "c = q1 * 4096 + r1 * 64 + r" "r1 < 64" "r < 64"
proof -
  define r where "r = c mod 64"
  define q where "q = c div 64"
  define r1 where "r1 = q mod 64"
  define q1 where "q1 = q div 64"
  have a: "c = q * 64 + r" unfolding q_def r_def by simp
  have b: "q = q1 * 64 + r1" unfolding q1_def r1_def by simp
  have e: "c = q1 * 4096 + r1 * 64 + r" using a b by linarith
  have f: "c div 4096 = q1" unfolding q1_def q_def by (rule d4096)
  have g: "c div 64 mod 64 = r1" unfolding r1_def q_def by simp
  have h: "r1 < 64" "r < 64" unfolding r1_def r_def by simp_all
  show thesis by (rule that[OF f g r_def[symmetric] e h])
qed

lemma split4:
  fixes c :: nat
  obtains q2 r2 r1 r where "c div 262144 = q2" "c div 4096 mod 64 = r2" "c div 64 mod 64 = r1"
    "c mod 64 = r" "c = q2 * 262144 + r2 * 4096 + r1 * 64 + r" "r2 < 64" "r1 < 64" "r < 64"
proof -
  define r where "r = c mod 64"
  define q where "q = c div 64"
  define r1 where "r1 = q mod 64"
  define q1 where "q1 = q div 64"
  define r2 where "r2 = q1 mod 64"
  define q2 where "q2 = q1 div 64"
  have a: "c = q * 64 + r" unfolding q_def r_def by simp
  have b: "q = q1 * 64 + r1" unfolding q1_def r1_def by simp
  have b2: "q1 = q2 * 64 + r2" unfolding q2_def r2_def by simp
  have e: "c = q2 * 262144 + r2 * 4096 + r1 * 64 + r" using a b b2 by linarith
  have f: "c div 262144 = q2" unfolding q2_def q1_def q_def by (rule d262144)
  have g2: "c div 4096 mod 64 = r2" unfolding r2_def q1_def q_def by (simp add: d4096)
  have g1: "c div 64 mod 64 = r1" unfolding r1_def q_def by simp
  have h: "r2 < 64" "r1 < 64" "r < 64" unfolding r2_def r1_def r_def by simp_all
  show thesis by (rule that[OF f g2 g1 r_def[symmetric] e h])
qed

lemma decode2:
  assumes "2 \<le> n0" "n0 < 32" "r < 64"
  shows "utf8_decode (char_of (0xC0 + n0) # char_of (0x80 + r) # rest)
           = (n0 * 64 + r) # utf8_decode rest"
proof -
  note [simp del] = utf8_decode.simps
  from assms have n: "(of_char (char_of (0xC0 + n0) :: char) :: nat) = 0xC0 + n0" by simp
  from assms have m: "(of_char (char_of (0x80 + r) :: char) :: nat) = 0x80 + r" by simp
  have c1: "cont (char_of (0x80 + r))" unfolding cont_def m using assms by simp
  have l1: "low6 (char_of (0x80 + r)) = r" unfolding low6_def m by simp
  show ?thesis
    by (subst utf8_decode.simps(2)) (use assms in \<open>simp add: Let_def n c1 l1\<close>)
qed

lemma decode3:
  assumes "n0 < 16" "r1 < 64" "r < 64" "n0 = 0 \<longrightarrow> 32 \<le> r1" "n0 = 13 \<longrightarrow> r1 < 32"
  shows "utf8_decode (char_of (0xE0 + n0) # char_of (0x80 + r1) # char_of (0x80 + r) # rest)
           = (n0 * 4096 + r1 * 64 + r) # utf8_decode rest"
proof -
  note [simp del] = utf8_decode.simps
  from assms have n: "(of_char (char_of (0xE0 + n0) :: char) :: nat) = 0xE0 + n0" by simp
  from assms have m1: "(of_char (char_of (0x80 + r1) :: char) :: nat) = 0x80 + r1" by simp
  from assms have m: "(of_char (char_of (0x80 + r) :: char) :: nat) = 0x80 + r" by simp
  have c1: "cont (char_of (0x80 + r1))" unfolding cont_def m1 using assms by simp
  have c2: "cont (char_of (0x80 + r))" unfolding cont_def m using assms by simp
  have l1: "low6 (char_of (0x80 + r1)) = r1" unfolding low6_def m1 by simp
  have l2: "low6 (char_of (0x80 + r)) = r" unfolding low6_def m by simp
  show ?thesis
    by (subst utf8_decode.simps(2)) (use assms in \<open>simp add: Let_def n m1 c1 c2 l1 l2\<close>)
qed

lemma decode4:
  assumes "n0 \<le> 4" "r2 < 64" "r1 < 64" "r < 64" "n0 = 0 \<longrightarrow> 16 \<le> r2" "n0 = 4 \<longrightarrow> r2 < 16"
  shows "utf8_decode (char_of (0xF0 + n0) # char_of (0x80 + r2) # char_of (0x80 + r1)
                        # char_of (0x80 + r) # rest)
           = (n0 * 262144 + r2 * 4096 + r1 * 64 + r) # utf8_decode rest"
proof -
  note [simp del] = utf8_decode.simps
  from assms have n: "(of_char (char_of (0xF0 + n0) :: char) :: nat) = 0xF0 + n0" by simp
  from assms have m2: "(of_char (char_of (0x80 + r2) :: char) :: nat) = 0x80 + r2" by simp
  from assms have m1: "(of_char (char_of (0x80 + r1) :: char) :: nat) = 0x80 + r1" by simp
  from assms have m: "(of_char (char_of (0x80 + r) :: char) :: nat) = 0x80 + r" by simp
  have c1: "cont (char_of (0x80 + r2))" unfolding cont_def m2 using assms by simp
  have c2: "cont (char_of (0x80 + r1))" unfolding cont_def m1 using assms by simp
  have c3: "cont (char_of (0x80 + r))" unfolding cont_def m using assms by simp
  have l1: "low6 (char_of (0x80 + r2)) = r2" unfolding low6_def m2 by simp
  have l2: "low6 (char_of (0x80 + r1)) = r1" unfolding low6_def m1 by simp
  have l3: "low6 (char_of (0x80 + r)) = r" unfolding low6_def m by simp
  show ?thesis
    by (subst utf8_decode.simps(2)) (use assms in \<open>simp add: Let_def n m2 c1 c2 c3 l1 l2 l3\<close>)
qed

lemma decode_encode_char:
  assumes "scalar c" "encode_char c = Inr x"
  shows "utf8_decode (x @ rest) = c # utf8_decode rest"
proof -
  consider "c < 0x80" | "0x80 \<le> c \<and> c < 0x800" | "0x800 \<le> c \<and> c < 0x10000" | "0x10000 \<le> c"
    by linarith
  then show ?thesis
  proof cases
    case 1
    with assms(2) have x: "x = [char_of c]" by (simp add: encode_char_def)
    from 1 have "(of_char (char_of c :: char) :: nat) = c" by simp
    with 1 x show ?thesis by (simp add: Let_def)
  next
    case 2
    with assms(2) have x: "x = [char_of (0xC0 + c div 64), char_of (0x80 + c mod 64)]"
      by (simp add: encode_char_def)
    define q where "q = c div 64"
    define r where "r = c mod 64"
    have c: "c = q * 64 + r" and r: "r < 64" unfolding q_def r_def by simp_all
    from 2 c r have q: "2 \<le> q" "q < 32" by linarith+
    from decode2[OF q r, of rest] x c show ?thesis unfolding q_def r_def by simp
  next
    case 3
    with assms(1) have ns: "\<not> (0xD800 \<le> c \<and> c \<le> 0xDFFF)" by (auto simp add: scalar_def)
    then have ns': "(0xD800 \<le> c \<and> c \<le> 0xDFFF) = False" by simp
    obtain q1 r1 r where d: "c div 4096 = q1" "c div 64 mod 64 = r1" "c mod 64 = r"
      and c: "c = q1 * 4096 + r1 * 64 + r" and lt: "r1 < 64" "r < 64" by (rule split3)
    from 3 assms(2) have x: "x = [char_of (0xE0 + q1), char_of (0x80 + r1), char_of (0x80 + r)]"
      by (simp add: encode_char_def ns' d)
    from 3 c lt have q: "q1 < 16" by linarith
    from 3 c lt have e0: "q1 = 0 \<longrightarrow> 32 \<le> r1" by linarith
    from ns 3 c lt have ed: "q1 = 13 \<longrightarrow> r1 < 32" by linarith
    from decode3[OF q lt e0 ed, of rest] x c show ?thesis by simp
  next
    case 4
    with assms(1) have ns: "\<not> (0xD800 \<le> c \<and> c \<le> 0xDFFF)" and hi: "c < 0x110000"
      by (auto simp add: scalar_def)
    then have ns': "(0xD800 \<le> c \<and> c \<le> 0xDFFF) = False" by simp
    obtain q2 r2 r1 r where d: "c div 262144 = q2" "c div 4096 mod 64 = r2" "c div 64 mod 64 = r1"
        "c mod 64 = r"
      and c: "c = q2 * 262144 + r2 * 4096 + r1 * 64 + r" and lt: "r2 < 64" "r1 < 64" "r < 64"
      by (rule split4)
    from 4 assms(2)
    have x: "x = [char_of (0xF0 + q2), char_of (0x80 + r2), char_of (0x80 + r1), char_of (0x80 + r)]"
      by (simp add: encode_char_def ns' d)
    from hi c lt have q: "q2 \<le> 4" by linarith
    from 4 c lt have e0: "q2 = 0 \<longrightarrow> 16 \<le> r2" by linarith
    from hi c lt have e4: "q2 = 4 \<longrightarrow> r2 < 16" by linarith
    from decode4[OF q lt e0 e4, of rest] x c show ?thesis by simp
  qed
qed

lemma decode_encode:
  "\<forall>c \<in> set s. scalar c \<Longrightarrow> utf8_encode s = Inr bs \<Longrightarrow> utf8_decode (bs @ rest) = s @ utf8_decode rest"
proof (induction s arbitrary: bs)
  case Nil
  then show ?case by simp
next
  case (Cons c s)
  from Cons.prems(1) have sc: "scalar c" and ss: "\<forall>c \<in> set s. scalar c" by simp_all
  from encode_char_scalar[OF sc] obtain x where x: "encode_char c = Inr x" by auto
  from utf8_encode_scalar[OF ss] obtain y where y: "utf8_encode s = Inr y" by auto
  from x y Cons.prems(2) have bs: "bs = x @ y" by simp
  have "utf8_decode (x @ (y @ rest)) = c # utf8_decode (y @ rest)"
    by (rule decode_encode_char[OF sc x])
  with Cons.IH[OF ss y] bs show ?case by simp
qed

lemma linebreak_newline [simp]: "linebreak 0x0A"
  by (simp add: linebreak_def)

lemma linebreak_return [simp]: "linebreak 0x0D"
  by (simp add: linebreak_def)

lemma splitlines_line:
  "\<forall>c \<in> set l. \<not> linebreak c \<Longrightarrow> splitlines (l @ 0x0A # rest) = l # splitlines rest"
proof (induction l)
  case Nil
  then show ?case by (cases rest) simp_all
next
  case (Cons c l)
  then have nb: "\<not> linebreak c" and ih: "splitlines (l @ 0x0A # rest) = l # splitlines rest"
    by simp_all
  from nb have c13: "c \<noteq> 0x0D" by auto
  obtain d ds where dd: "l @ 0x0A # rest = d # ds" by (cases "l @ 0x0A # rest") auto
  have "splitlines (c # d # ds) = (case splitlines (d # ds) of [] \<Rightarrow> [[c]] | x # xs \<Rightarrow> (c # x) # xs)"
    using nb c13 by simp
  with dd ih show ?case by simp
qed

lemma splitlines_join:
  "ls \<noteq> [] \<Longrightarrow> \<forall>l \<in> set ls. \<forall>c \<in> set l. \<not> linebreak c
     \<Longrightarrow> splitlines (join [0x0A] ls @ [0x0A]) = ls"
proof (induction "[0x0A::nat]" ls rule: join.induct)
  case 1
  then show ?case by simp
next
  case (2 x)
  then show ?case using splitlines_line[of x "[]"] by simp
next
  case (3 x y ys)
  then have "splitlines (join [0x0A] (y # ys) @ [0x0A]) = y # ys" by simp
  moreover have "splitlines (x @ 0x0A # (join [0x0A] (y # ys) @ [0x0A]))
                   = x # splitlines (join [0x0A] (y # ys) @ [0x0A])"
    using 3 by (intro splitlines_line) simp
  ultimately show ?case by simp
qed

lemma decode_newline: "utf8_decode [CHR 0x0A] = [0x0A]"
  by (simp add: Let_def)

lemma decode_output:
  assumes "\<forall>c \<in> set s. scalar c" "utf8_encode s = Inr enc"
  shows "utf8_decode (enc @ [CHR 0x0A]) = s @ [0x0A]"
  using decode_encode[OF assms, of "[CHR 0x0A]"] by (simp add: decode_newline)

section \<open>Blob scrubber\<close>

lemma flagged_Cons:
  "flagged p ((f, l) # rest) k
     \<longleftrightarrow> (f = JStr p \<and> map_option int_of (as_pyint l) = Some (int k)) \<or> flagged p rest k"
  by (auto simp: flagged_def)

lemma int_lines_Cons:
  "int_lines p ((f, l) # rest) \<longleftrightarrow> (f = JStr p \<longrightarrow> as_pyint l \<noteq> None) \<and> int_lines p rest"
  by (auto simp: int_lines_def)

lemma clean_lines_other:
  "f \<noteq> JStr p \<Longrightarrow> clean_lines p ((f, l) # rest) ls m lg = clean_lines p rest ls m lg"
  by simp

lemma clean_lines_out:
  "as_pyint l = Some n \<Longrightarrow> \<not> (0 < int_of n \<and> int_of n \<le> int (length ls))
     \<Longrightarrow> clean_lines p ((JStr p, l) # rest) ls m lg = clean_lines p rest ls m lg"
  by auto

lemma clean_lines_in:
  "as_pyint l = Some n \<Longrightarrow> 0 < int_of n \<Longrightarrow> int_of n \<le> int (length ls)
     \<Longrightarrow> clean_lines p ((JStr p, l) # rest) ls m lg
         = clean_lines p rest (ls[nat (int_of n - 1) := []]) (m + 1)
             (log_callback ''FILE_INFO''
                (u (''Removed secret from line '' @ str_pyint n @ '' in '') @ p) lg)"
  by simp

lemma clean_lines_raise:
  "as_pyint l = None \<Longrightarrow> clean_lines p ((JStr p, l) # rest) ls m lg = (Inl TypeError, lg)"
  by simp

lemma clean_lines_result:
  assumes "int_lines p bad"
  shows "\<exists>ls' m' lg'. clean_lines p bad ls m lg = (Inr (ls', m'), lg')
           \<and> length ls' = length ls
           \<and> (\<forall>i < length ls. ls' ! i = (if flagged p bad (i + 1) then [] else ls ! i))"
  using assms
proof (induction bad arbitrary: ls m lg)
  case Nil
  then show ?case by (simp add: flagged_def)
next
  case (Cons fl rest)
  obtain f l where fl: "fl = (f, l)" by (cases fl)
  from Cons.prems fl have ty: "f = JStr p \<longrightarrow> as_pyint l \<noteq> None" and rest: "int_lines p rest"
    by (simp_all add: int_lines_Cons)
  show ?case
  proof (cases "f = JStr p")
    case False
    from Cons.IH[OF rest, of ls m lg] False fl show ?thesis
      by (simp add: flagged_Cons)
  next
    case True
    with ty obtain n where n: "as_pyint l = Some n" by auto
    show ?thesis
    proof (cases "0 < int_of n \<and> int_of n \<le> int (length ls)")
      case False
      then have "\<forall>i < length ls. int_of n \<noteq> int (i + 1)" by auto
      moreover have "clean_lines p (fl # rest) ls m lg = clean_lines p rest ls m lg"
        unfolding fl True using clean_lines_out[OF n False] .
      ultimately show ?thesis using Cons.IH[OF rest, of ls m lg] True n fl
        by (simp add: flagged_Cons del: clean_lines.simps)
    next
      case inr: True
      let ?j = "nat (int_of n - 1)"
      let ?ls1 = "ls[?j := []]"
      let ?lg1 = "log_callback ''FILE_INFO''
                    (u (''Removed secret from line '' @ str_pyint n @ '' in '') @ p) lg"
      from inr have j: "?j < length ls" by auto
      have eq: "\<And>i. int_of n = int (i + 1) \<longleftrightarrow> i = ?j" using inr by auto
      from Cons.IH[OF rest, of ?ls1 "m + 1" ?lg1]
      obtain ls' m' lg' where r: "clean_lines p rest ?ls1 (m + 1) ?lg1 = (Inr (ls', m'), lg')"
        and len: "length ls' = length ?ls1"
        and nth: "\<forall>i < length ?ls1. ls' ! i = (if flagged p rest (i + 1) then [] else ?ls1 ! i)"
        by blast
      have c: "clean_lines p (fl # rest) ls m lg = (Inr (ls', m'), lg')"
        unfolding fl True using clean_lines_in[of l n ls p rest m lg] n inr r by simp
      have "\<forall>i < length ls. ls' ! i = (if flagged p (fl # rest) (i + 1) then [] else ls ! i)"
      proof (intro allI impI)
        fix i assume i: "i < length ls"
        with nth have "ls' ! i = (if flagged p rest (i + 1) then [] else ?ls1 ! i)" by simp
        moreover have "?ls1 ! i = (if i = ?j then [] else ls ! i)" using i by (simp add: nth_list_update)
        moreover have "flagged p (fl # rest) (i + 1) \<longleftrightarrow> i = ?j \<or> flagged p rest (i + 1)"
          unfolding fl flagged_Cons using True n eq[of i] by auto
        ultimately show "ls' ! i = (if flagged p (fl # rest) (i + 1) then [] else ls ! i)"
          using j by simp
      qed
      with c len show ?thesis by simp
    qed
  qed
qed

lemma clean_lines_skip:
  assumes "int_lines p bad" and "\<forall>i < length ls. \<not> flagged p bad (i + 1)"
  shows "clean_lines p bad ls m lg = (Inr (ls, m), lg)"
  using assms
proof (induction bad)
  case Nil
  then show ?case by simp
next
  case (Cons fl rest)
  obtain f l where fl: "fl = (f, l)" by (cases fl)
  from Cons.prems fl have ty: "f = JStr p \<longrightarrow> as_pyint l \<noteq> None" and rest: "int_lines p rest"
    by (simp_all add: int_lines_Cons)
  from Cons.prems(2) fl have nf: "\<forall>i < length ls. \<not> flagged p rest (i + 1)"
    by (simp add: flagged_Cons)
  show ?case
  proof (cases "f = JStr p")
    case False
    with Cons.IH[OF rest nf] fl show ?thesis by simp
  next
    case True
    with ty obtain n where n: "as_pyint l = Some n" by auto
    have out: "\<not> (0 < int_of n \<and> int_of n \<le> int (length ls))"
    proof
      assume a: "0 < int_of n \<and> int_of n \<le> int (length ls)"
      then have "nat (int_of n - 1) < length ls" and "int_of n = int (nat (int_of n - 1) + 1)" by auto
      with Cons.prems(2) fl True n show False by (auto simp: flagged_Cons)
    qed
    have "clean_lines p (fl # rest) ls m lg = clean_lines p rest ls m lg"
      unfolding fl True using clean_lines_out[OF n out] .
    with Cons.IH[OF rest nf] show ?thesis by simp
  qed
qed

lemma clean_lines_error:
  assumes "\<not> int_lines p bad"
  shows "\<exists>lg'. clean_lines p bad ls m lg = (Inl TypeError, lg')"
  using assms
proof (induction bad arbitrary: ls m lg)
  case Nil
  then show ?case by (simp add: int_lines_def)
next
  case (Cons fl rest)
  obtain f l where fl: "fl = (f, l)" by (cases fl)
  show ?case
  proof (cases "f = JStr p \<and> as_pyint l = None")
    case True
    with fl show ?thesis by simp
  next
    case False
    with Cons.prems fl have "\<not> int_lines p rest" by (auto simp: int_lines_Cons)
    from Cons.IH[OF this] False fl show ?thesis by (auto split: option.splits)
  qed
qed

lemma join_set: "set (join sep ls) \<subseteq> set sep \<union> \<Union> (set ` set ls)"
  by (induction sep ls rule: join.induct) auto

lemma callback_load_error:
  "load_bad_lines src = Inl e
     \<Longrightarrow> file_info_callback get put src w filename mode blob_id = (Inl e, w)"
  by (simp add: file_info_callback_def)

lemma callback_no_secret:
  assumes "load_bad_lines src = Inr bad"
    and "\<not> (\<exists>(f, l) \<in> set bad. f = JStr (utf8_decode filename))"
  shows "file_info_callback get put src w filename mode blob_id
           = (Inr (filename, mode, blob_id),
              w\<lparr>file_log := log_callback ''FILE_INFO''
                   (u ''No secrets found in '' @ utf8_decode filename @ u '', returning unchanged'')
                   (log_callback ''FILE_INFO'' (u ''Processing file: '' @ utf8_decode filename)
                      (log_callback ''FILE_INFO''
                         (u (''Loaded '' @ str_nat (length bad) @ '' secret locations from gitleaks file''))
                         (file_log w)))\<rparr>)"
  using assms by (auto simp add: file_info_callback_def Let_def)

lemma callback_secret:
  assumes "load_bad_lines src = Inr bad"
    and "\<exists>(f, l) \<in> set bad. f = JStr (utf8_decode filename)"
    and "clean_lines (utf8_decode filename) bad (splitlines (utf8_decode (get blob_id))) 0
           (log_callback ''FILE_INFO''
              (u ''Found secrets in '' @ utf8_decode filename @ u '', processing...'')
              (log_callback ''FILE_INFO'' (u ''Processing file: '' @ utf8_decode filename)
                 (log_callback ''FILE_INFO''
                    (u (''Loaded '' @ str_nat (length bad) @ '' secret locations from gitleaks file''))
                    (file_log w))))
         = (Inr (ls', m'), lg4)"
    and "utf8_encode (join [0x0A] ls') = Inr enc"
  shows "file_info_callback get put src w filename mode blob_id
           = (Inr (filename, mode, put (enc @ [CHR 0x0A])),
              w\<lparr>fetched := fetched w @ [blob_id],
                file_log := log_callback ''FILE_INFO''
                   (u (''Modified '' @ str_nat m' @ '' lines in '') @ utf8_decode filename
                      @ u ('' (original: '' @ str_nat (length (splitlines (utf8_decode (get blob_id))))
                             @ '' lines)''))
                   lg4,
                inserted := inserted w @ [enc @ [CHR 0x0A]]\<rparr>)"
  using assms by (auto simp add: file_info_callback_def Let_def simp del: clean_lines.simps)

lemma callback_type_error:
  assumes "load_bad_lines src = Inr bad"
    and "\<exists>(f, l) \<in> set bad. f = JStr (utf8_decode filename)"
    and "\<not> int_lines (utf8_decode filename) bad"
  shows "fst (file_info_callback get put src w filename mode blob_id) = Inl TypeError"
proof -
  let ?lg3 = "log_callback ''FILE_INFO''
              (u ''Found secrets in '' @ utf8_decode filename @ u '', processing...'')
              (log_callback ''FILE_INFO'' (u ''Processing file: '' @ utf8_decode filename)
                 (log_callback ''FILE_INFO''
                    (u (''Loaded '' @ str_nat (length bad) @ '' secret locations from gitleaks file''))
                    (file_log w)))"
  from clean_lines_error[OF assms(3), of "splitlines (utf8_decode (get blob_id))" 0 ?lg3]
  obtain lg' where "clean_lines (utf8_decode filename) bad (splitlines (utf8_decode (get blob_id))) 0 ?lg3
                      = (Inl TypeError, lg')" by blast
  with assms(1,2) show ?thesis
    by (auto simp add: file_info_callback_def Let_def simp del: clean_lines.simps)
qed

lemma blanked_member:
  assumes "length ls' = length ls" and "\<forall>i < length ls. ls' ! i = [] \<or> ls' ! i = ls ! i"
    and "l \<in> set ls'"
  shows "l = [] \<or> l \<in> set ls"
proof -
  from assms(3) obtain i where "i < length ls'" "ls' ! i = l" by (auto simp: in_set_conv_nth)
  with assms(1,2) show ?thesis by (metis nth_mem)
qed

lemma scrub_result:
  assumes load: "load_bad_lines src = Inr bad"
    and has: "\<exists>(f, l) \<in> set bad. f = JStr (utf8_decode filename)"
    and ty: "int_lines (utf8_decode filename) bad"
  shows "\<exists>ls' enc w'.
           file_info_callback get put src w filename mode blob_id
             = (Inr (filename, mode, put (enc @ [CHR 0x0A])), w')
         \<and> utf8_encode (join [0x0A] ls') = Inr enc
         \<and> (\<forall>c \<in> set (join [0x0A] ls'). scalar c)
         \<and> length ls' = length (splitlines (utf8_decode (get blob_id)))
         \<and> (\<forall>i < length ls'.
               ls' ! i = (if flagged (utf8_decode filename) bad (i + 1) then []
                          else splitlines (utf8_decode (get blob_id)) ! i))
         \<and> (\<forall>l \<in> set ls'. \<forall>c \<in> set l. \<not> linebreak c)
         \<and> fetched w' = fetched w @ [blob_id]
         \<and> inserted w' = inserted w @ [enc @ [CHR 0x0A]]"
proof -
  let ?p = "utf8_decode filename"
  let ?ls = "splitlines (utf8_decode (get blob_id))"
  let ?lg3 = "log_callback ''FILE_INFO''
              (u ''Found secrets in '' @ ?p @ u '', processing...'')
              (log_callback ''FILE_INFO'' (u ''Processing file: '' @ ?p)
                 (log_callback ''FILE_INFO''
                    (u (''Loaded '' @ str_nat (length bad) @ '' secret locations from gitleaks file''))
                    (file_log w)))"
  from clean_lines_result[OF ty, of ?ls 0 ?lg3]
  obtain ls' m' lg4 where c: "clean_lines ?p bad ?ls 0 ?lg3 = (Inr (ls', m'), lg4)"
    and len: "length ls' = length ?ls"
    and nth: "\<forall>i < length ?ls. ls' ! i = (if flagged ?p bad (i + 1) then [] else ?ls ! i)"
    by blast
  have mem: "\<And>l. l \<in> set ls' \<Longrightarrow> l = [] \<or> l \<in> set ?ls"
    using blanked_member[OF len] nth by auto
  have nb: "\<forall>l \<in> set ls'. \<forall>c \<in> set l. \<not> linebreak c"
    using mem splitlines_no_break by fastforce
  have sc: "\<forall>l \<in> set ls'. \<forall>c \<in> set l. scalar c"
  proof (intro ballI)
    fix l c assume "l \<in> set ls'" "c \<in> set l"
    with mem[of l] have "l \<in> set ?ls" by auto
    with splitlines_subset[of l] \<open>c \<in> set l\<close> have "c \<in> set (utf8_decode (get blob_id))" by auto
    then show "scalar c" by (rule decode_scalar)
  qed
  have "scalar 0x0A" by (simp add: scalar_def)
  with sc join_set[of "[0x0A]" ls'] have js: "\<forall>c \<in> set (join [0x0A] ls'). scalar c" by auto
  from utf8_encode_scalar[OF js] obtain enc where e: "utf8_encode (join [0x0A] ls') = Inr enc"
    by blast
  from callback_secret[of src bad filename get blob_id w ls' m' lg4 enc put mode, OF load has c e]
    len nth nb js e show ?thesis
    by (intro exI[of _ ls'] exI[of _ enc]) auto
qed

lemma add_findings_fails:
  "\<exists>x \<in> set es. \<not> record_ok x \<Longrightarrow> \<exists>err. add_findings es acc = Inl err"
proof (induction es arbitrary: acc)
  case Nil
  then show ?case by simp
next
  case (Cons x es)
  show ?case
  proof (cases "record_ok x")
    case True
    with Cons.prems have "\<exists>x \<in> set es. \<not> record_ok x" by simp
    from Cons.IH[OF this] True show ?thesis
      by (auto simp: record_ok_def split: sum.splits)
  next
    case False
    then show ?thesis by (auto simp: record_ok_def split: sum.splits)
  qed
qed

text \<open>
  C8. A findings file that cannot be read or parsed makes the load fail with the exception of
  the failed step, and so does an element of the file that is not a finding record even
  when other elements are. Whenever the load fails, the callback ends with that exception
  before anything else happens: no log entry, no blob fetched, no blob written, for whatever
  file entry it was called.
\<close>

theorem findings_failure_is_fatal:
  "(read_json src = Inl e \<longrightarrow> load_bad_lines src = Inl e)
   \<and> ((\<exists>x \<in> set es. \<not> record_ok x) \<longrightarrow> (\<exists>err. load_bad_lines (Parsed (JArr es)) = Inl err))
   \<and> (load_bad_lines src = Inl e \<longrightarrow>
        file_info_callback get put src w filename mode blob_id = (Inl e, w))"
proof (intro conjI impI)
  assume "read_json src = Inl e"
  then show "load_bad_lines src = Inl e" by (simp add: load_bad_lines_def)
next
  assume "\<exists>x \<in> set es. \<not> record_ok x"
  from add_findings_fails[OF this, of "[]"]
  show "\<exists>err. load_bad_lines (Parsed (JArr es)) = Inl err" by (simp add: load_bad_lines_def)
next
  assume "load_bad_lines src = Inl e"
  then show "file_info_callback get put src w filename mode blob_id = (Inl e, w)"
    by (rule callback_load_error)
qed

theorem findings_failure_is_fatal_witness:
  "read_json Malformed = Inl JSONDecodeError
   \<and> file_info_callback (\<lambda>i::nat. ''x'') (\<lambda>b. 1) Malformed
        \<lparr>file_log = Some [], fetched = [], inserted = []\<rparr> ''a.txt'' (0::nat) 0
      = (Inl JSONDecodeError, \<lparr>file_log = Some [], fetched = [], inserted = []\<rparr>)
   \<and> \<not> record_ok (JObj [(u ''File'', JStr (u ''b.txt''))])
   \<and> load_bad_lines (Parsed (JArr
        [JObj [(u ''File'', JStr (u ''a.txt'')), (u ''StartLine'', JInt 2)],
         JObj [(u ''File'', JStr (u ''b.txt''))]])) = Inl KeyError"
proof -
  let ?es = "[JObj [(u ''File'', JStr (u ''a.txt'')), (u ''StartLine'', JInt 2)],
              JObj [(u ''File'', JStr (u ''b.txt''))]]"
  let ?w = "\<lparr>file_log = Some [], fetched = [], inserted = []\<rparr> :: nat world"
  have a: "read_json Malformed = Inl JSONDecodeError" by simp
  have b: "\<not> record_ok (JObj [(u ''File'', JStr (u ''b.txt''))])"
    by (simp add: record_ok_def u_def)
  note th = findings_failure_is_fatal[of Malformed JSONDecodeError ?es "\<lambda>i::nat. ''x''" "\<lambda>b. 1" ?w
      "''a.txt''" "0::nat" 0]
  from th a have l: "load_bad_lines Malformed = Inl JSONDecodeError" by blast
  with th have c: "file_info_callback (\<lambda>i::nat. ''x'') (\<lambda>b. 1) Malformed ?w ''a.txt'' (0::nat) 0
                   = (Inl JSONDecodeError, ?w)" by blast
  from th b have "\<exists>err. load_bad_lines (Parsed (JArr ?es)) = Inl err" by simp
  then have d: "load_bad_lines (Parsed (JArr ?es)) = Inl KeyError"
    by (simp add: load_bad_lines_def u_def set_add_def)
  from a b c d show ?thesis by simp
qed

text \<open>
  C2. When the findings load and none of them names the decoded path, the callback returns
  the path, mode and blob id it was given and neither fetches nor writes a blob. Whenever the
  callback returns at all, the path and the mode it returns are the ones it was given.
\<close>

theorem scrub_passes_path_and_mode_through:
  "(load_bad_lines src = Inr bad \<and> \<not> (\<exists>(f, l) \<in> set bad. f = JStr (utf8_decode filename)) \<longrightarrow>
      (\<exists>w'. file_info_callback get put src w filename mode blob_id
               = (Inr (filename, mode, blob_id), w')
          \<and> fetched w' = fetched w \<and> inserted w' = inserted w))
   \<and> (\<forall>r w'. file_info_callback get put src w filename mode blob_id = (Inr r, w') \<longrightarrow>
         fst r = filename \<and> fst (snd r) = mode)"
proof (intro conjI impI allI)
  assume a: "load_bad_lines src = Inr bad \<and> \<not> (\<exists>(f, l) \<in> set bad. f = JStr (utf8_decode filename))"
  then have l: "load_bad_lines src = Inr bad"
    and n: "\<not> (\<exists>(f, l) \<in> set bad. f = JStr (utf8_decode filename))" by simp_all
  show "\<exists>w'. file_info_callback get put src w filename mode blob_id = (Inr (filename, mode, blob_id), w')
          \<and> fetched w' = fetched w \<and> inserted w' = inserted w"
    unfolding callback_no_secret[OF l n] by simp
next
  fix r w'
  assume r: "file_info_callback get put src w filename mode blob_id = (Inr r, w')"
  show "fst r = filename"
  proof (cases "load_bad_lines src")
    case (Inl e)
    from callback_load_error[OF this, of get put w filename mode blob_id] r show ?thesis by simp
  next
    case (Inr bad0)
    show ?thesis
    proof (cases "\<exists>(f, l) \<in> set bad0. f = JStr (utf8_decode filename)")
      case False
      from callback_no_secret[OF Inr False, of get put w mode blob_id] r show ?thesis by auto
    next
      case True
      show ?thesis
      proof (cases "int_lines (utf8_decode filename) bad0")
        case False
        from callback_type_error[OF Inr True False, of get put w mode blob_id] r show ?thesis by simp
      next
        case ty: True
        from scrub_result[OF Inr True ty, of get put w mode blob_id] r show ?thesis by auto
      qed
    qed
  qed
  show "fst (snd r) = mode"
  proof (cases "load_bad_lines src")
    case (Inl e)
    from callback_load_error[OF this, of get put w filename mode blob_id] r show ?thesis by simp
  next
    case (Inr bad0)
    show ?thesis
    proof (cases "\<exists>(f, l) \<in> set bad0. f = JStr (utf8_decode filename)")
      case False
      from callback_no_secret[OF Inr False, of get put w mode blob_id] r show ?thesis by auto
    next
      case True
      show ?thesis
      proof (cases "int_lines (utf8_decode filename) bad0")
        case False
        from callback_type_error[OF Inr True False, of get put w mode blob_id] r show ?thesis by simp
      next
        case ty: True
        from scrub_result[OF Inr True ty, of get put w mode blob_id] r show ?thesis by auto
      qed
    qed
  qed
qed

theorem scrub_passes_path_and_mode_through_witness:
  "load_bad_lines (Parsed (JArr [JObj [(u ''File'', JStr (u ''a.txt'')), (u ''StartLine'', JInt 2)]]))
     = Inr [(JStr (u ''a.txt''), JInt 2)]
   \<and> \<not> (\<exists>(f, l) \<in> set [(JStr (u ''a.txt''), JInt 2)]. f = JStr (utf8_decode ''b.txt''))
   \<and> (\<exists>w'. file_info_callback (\<lambda>i::nat. ''x\<newline>SECRETKEY\<newline>y\<newline>'') (\<lambda>b. 7)
              (Parsed (JArr [JObj [(u ''File'', JStr (u ''a.txt'')), (u ''StartLine'', JInt 2)]]))
              \<lparr>file_log = None, fetched = [], inserted = []\<rparr> ''b.txt'' (0::nat) 3
            = (Inr (''b.txt'', 0, 3), w')
          \<and> fetched w' = [] \<and> inserted w' = [])
   \<and> (\<exists>r w'. file_info_callback (\<lambda>i::nat. ''x\<newline>SECRETKEY\<newline>y\<newline>'') (\<lambda>b. 7)
              (Parsed (JArr [JObj [(u ''File'', JStr (u ''a.txt'')), (u ''StartLine'', JInt 2)]]))
              \<lparr>file_log = None, fetched = [], inserted = []\<rparr> ''a.txt'' (0::nat) 3
            = (Inr r, w')
          \<and> snd (snd r) = 7 \<and> fst r = ''a.txt'' \<and> fst (snd r) = 0)"
proof -
  let ?src = "Parsed (JArr [JObj [(u ''File'', JStr (u ''a.txt'')), (u ''StartLine'', JInt 2)]])"
  let ?bad = "[(JStr (u ''a.txt''), JInt 2)]"
  let ?get = "\<lambda>i::nat. ''x\<newline>SECRETKEY\<newline>y\<newline>''"
  let ?put = "\<lambda>b::bytes. 7::nat"
  let ?w = "\<lparr>file_log = None, fetched = [], inserted = []\<rparr> :: nat world"
  have l: "load_bad_lines ?src = Inr ?bad" by code_simp
  have n: "\<not> (\<exists>(f, l) \<in> set ?bad. f = JStr (utf8_decode ''b.txt''))" by code_simp
  from scrub_passes_path_and_mode_through[of ?src ?bad "''b.txt''" ?get ?put ?w "0::nat" 3] l n
  have p1: "\<exists>w'. file_info_callback ?get ?put ?src ?w ''b.txt'' (0::nat) 3 = (Inr (''b.txt'', 0, 3), w')
          \<and> fetched w' = fetched ?w \<and> inserted w' = inserted ?w" by blast
  have h: "\<exists>(f, l) \<in> set ?bad. f = JStr (utf8_decode ''a.txt'')" by code_simp
  have t: "int_lines (utf8_decode ''a.txt'') ?bad" by code_simp
  from scrub_result[OF l h t, of ?get ?put ?w "0::nat" 3]
  obtain w' where e: "file_info_callback ?get ?put ?src ?w ''a.txt'' (0::nat) 3
                            = (Inr (''a.txt'', 0, 7), w')"
    by auto
  from scrub_passes_path_and_mode_through[of ?src ?bad "''a.txt''" ?get ?put ?w "0::nat" 3] e
  have "fst (''a.txt'', 0::nat, 7::nat) = ''a.txt'' \<and> fst (snd (''a.txt'', 0::nat, 7::nat)) = 0"
    by blast
  with e have p2: "\<exists>r w'. file_info_callback ?get ?put ?src ?w ''a.txt'' (0::nat) 3 = (Inr r, w')
          \<and> snd (snd r) = 7 \<and> fst r = ''a.txt'' \<and> fst (snd r) = 0" by auto
  from l n p1 p2 show ?thesis by simp
qed

lemma blanked_length [simp]: "length (blanked p bad ls) = length ls"
  by (simp add: blanked_def)

lemma blanked_nth:
  "i < length ls \<Longrightarrow> blanked p bad ls ! i = (if flagged p bad (i + 1) then [] else ls ! i)"
  by (simp add: blanked_def)

lemma blanked_order: "set bad = set bad' \<Longrightarrow> blanked p bad ls = blanked p bad' ls"
  by (simp add: blanked_def flagged_def)

lemma blanked_unflagged:
  "\<forall>i < length ls. \<not> flagged p bad (i + 1) \<Longrightarrow> blanked p bad ls = ls"
  by (rule nth_equalityI) (simp_all add: blanked_nth)

lemma clean_lines_blanked:
  assumes "int_lines p bad"
  shows "\<exists>m' lg'. clean_lines p bad ls m lg = (Inr (blanked p bad ls, m'), lg')"
proof -
  from clean_lines_result[OF assms, of ls m lg]
  obtain ls' m' lg' where c: "clean_lines p bad ls m lg = (Inr (ls', m'), lg')"
    and len: "length ls' = length ls"
    and nth: "\<forall>i < length ls. ls' ! i = (if flagged p bad (i + 1) then [] else ls ! i)"
    by blast
  have "ls' = blanked p bad ls"
    by (rule nth_equalityI) (simp_all add: len nth blanked_nth)
  with c show ?thesis by blast
qed

lemma blanked_no_break:
  "\<forall>l \<in> set (blanked p bad (splitlines s)). \<forall>c \<in> set l. \<not> linebreak c"
proof (intro ballI)
  fix l c assume l: "l \<in> set (blanked p bad (splitlines s))" and c: "c \<in> set l"
  from l obtain i where i: "i < length (splitlines s)" and e: "blanked p bad (splitlines s) ! i = l"
    by (auto simp: in_set_conv_nth)
  with c have "l = splitlines s ! i" by (auto simp: blanked_nth split: if_splits)
  with i have "l \<in> set (splitlines s)" by simp
  then show "\<not> linebreak c" using c by (rule splitlines_no_break)
qed

lemma blanked_scalar:
  "\<forall>c \<in> set (join [0x0A] (blanked p bad (splitlines (utf8_decode bs)))). scalar c"
proof -
  let ?b = "blanked p bad (splitlines (utf8_decode bs))"
  have "\<forall>l \<in> set ?b. \<forall>c \<in> set l. scalar c"
  proof (intro ballI)
    fix l c assume l: "l \<in> set ?b" and c: "c \<in> set l"
    from l obtain i where i: "i < length (splitlines (utf8_decode bs))" and e: "?b ! i = l"
      by (auto simp: in_set_conv_nth)
    with c have "l = splitlines (utf8_decode bs) ! i" by (auto simp: blanked_nth split: if_splits)
    with i have "l \<in> set (splitlines (utf8_decode bs))" by simp
    with splitlines_subset[of l] c have "c \<in> set (utf8_decode bs)" by auto
    then show "scalar c" by (rule decode_scalar)
  qed
  moreover have "scalar 0x0A" by (simp add: scalar_def)
  ultimately show ?thesis using join_set[of "[0x0A]" ?b] by auto
qed

lemma scrub_rewrites:
  assumes load: "load_bad_lines src = Inr bad"
    and has: "\<exists>(f, l) \<in> set bad. f = JStr (utf8_decode filename)"
    and ty: "int_lines (utf8_decode filename) bad"
  shows "\<exists>enc w'.
           utf8_encode (join [0x0A]
             (blanked (utf8_decode filename) bad (splitlines (utf8_decode (get blob_id))))) = Inr enc
         \<and> file_info_callback get put src w filename mode blob_id
             = (Inr (filename, mode, put (enc @ [CHR 0x0A])), w')
         \<and> fetched w' = fetched w @ [blob_id]
         \<and> inserted w' = inserted w @ [enc @ [CHR 0x0A]]"
proof -
  let ?p = "utf8_decode filename"
  let ?ls = "splitlines (utf8_decode (get blob_id))"
  let ?lg3 = "log_callback ''FILE_INFO''
              (u ''Found secrets in '' @ ?p @ u '', processing...'')
              (log_callback ''FILE_INFO'' (u ''Processing file: '' @ ?p)
                 (log_callback ''FILE_INFO''
                    (u (''Loaded '' @ str_nat (length bad) @ '' secret locations from gitleaks file''))
                    (file_log w)))"
  from clean_lines_blanked[OF ty, of ?ls 0 ?lg3]
  obtain m' lg4 where c: "clean_lines ?p bad ?ls 0 ?lg3 = (Inr (blanked ?p bad ?ls, m'), lg4)"
    by blast
  from utf8_encode_scalar[OF blanked_scalar, of ?p bad "get blob_id"]
  obtain enc where e: "utf8_encode (join [0x0A] (blanked ?p bad ?ls)) = Inr enc" by blast
  from callback_secret[of src bad filename get blob_id w "blanked ?p bad ?ls" m' lg4 enc put mode,
      OF load has c e] e
  show ?thesis by auto
qed

lemma output_text:
  assumes "utf8_encode (join [0x0A] (blanked p bad (splitlines (utf8_decode bs)))) = Inr enc"
  shows "utf8_decode (enc @ [CHR 0x0A]) = join [0x0A] (blanked p bad (splitlines (utf8_decode bs))) @ [0x0A]"
  by (rule decode_output[OF blanked_scalar assms])

lemma output_lines:
  assumes "utf8_encode (join [0x0A] (blanked p bad (splitlines (utf8_decode bs)))) = Inr enc"
    and "utf8_decode bs \<noteq> []"
  shows "splitlines (utf8_decode (enc @ [CHR 0x0A])) = blanked p bad (splitlines (utf8_decode bs))"
proof -
  from assms(2) have "blanked p bad (splitlines (utf8_decode bs)) \<noteq> []"
    by (metis blanked_length length_0_conv splitlines_Nil_iff)
  from splitlines_join[OF this blanked_no_break] output_text[OF assms(1)] show ?thesis by simp
qed

section \<open>Blob scrubber: line blanking and re-encoding\<close>

lemma flagged_member:
  "(JStr p, l) \<in> set bad \<Longrightarrow> as_pyint l = Some n \<Longrightarrow> int_of n = int k \<Longrightarrow> flagged p bad k"
  by (auto simp: flagged_def)

text \<open>
  C3. Let the findings load, let each finding of the decoded path carry an integer line
  number, and let one of them name a line \<open>n\<close> of the decoded content, counted from 1. Then
  the callback writes a new blob whose text is the line buffer joined by newlines; in that
  buffer, and in the lines of the written blob, line \<open>n\<close> is empty, the number of lines is the
  one of the original content, and each line keeps its index: it is empty when a finding of
  this path names it and is the original line otherwise.
\<close>

theorem scrub_blanks_the_flagged_line:
  assumes "load_bad_lines src = Inr bad"
    and "(JStr (utf8_decode filename), l) \<in> set bad" and "as_pyint l = Some n"
    and "0 < int_of n" and "int_of n \<le> int (length (splitlines (utf8_decode (get blob_id))))"
    and "int_lines (utf8_decode filename) bad"
  shows "\<exists>ls' enc w'.
           file_info_callback get put src w filename mode blob_id
             = (Inr (filename, mode, put (enc @ [CHR 0x0A])), w')
         \<and> inserted w' = inserted w @ [enc @ [CHR 0x0A]]
         \<and> utf8_encode (join [0x0A] ls') = Inr enc
         \<and> splitlines (utf8_decode (enc @ [CHR 0x0A])) = ls'
         \<and> length ls' = length (splitlines (utf8_decode (get blob_id)))
         \<and> ls' ! nat (int_of n - 1) = []
         \<and> (\<forall>i < length ls'.
               ls' ! i = (if flagged (utf8_decode filename) bad (i + 1) then []
                          else splitlines (utf8_decode (get blob_id)) ! i))"
proof -
  let ?p = "utf8_decode filename"
  let ?ls = "splitlines (utf8_decode (get blob_id))"
  let ?b = "blanked ?p bad ?ls"
  have has: "\<exists>(f, l) \<in> set bad. f = JStr ?p" using assms(2) by auto
  from scrub_rewrites[OF assms(1) has assms(6), of get blob_id put w mode]
  obtain enc w' where e: "utf8_encode (join [0x0A] ?b) = Inr enc"
    and c: "file_info_callback get put src w filename mode blob_id
              = (Inr (filename, mode, put (enc @ [CHR 0x0A])), w')"
    and i: "inserted w' = inserted w @ [enc @ [CHR 0x0A]]" by blast
  from assms(4,5) have ne: "utf8_decode (get blob_id) \<noteq> []" by auto
  have s: "splitlines (utf8_decode (enc @ [CHR 0x0A])) = ?b"
    by (rule output_lines[OF e ne])
  let ?j = "nat (int_of n - 1)"
  from assms(4,5) have j: "?j < length ?ls" and jn: "int_of n = int (?j + 1)" by auto
  have "flagged ?p bad (?j + 1)" by (rule flagged_member[OF assms(2,3) jn])
  with j have z: "?b ! ?j = []" by (simp add: blanked_nth)
  have n: "\<forall>i < length ?b. ?b ! i = (if flagged ?p bad (i + 1) then [] else ?ls ! i)"
    by (simp add: blanked_nth)
  from c i e s z n show ?thesis
    by (intro exI[of _ ?b] exI[of _ enc] exI[of _ w']) simp
qed

lemma decode_a_txt: "utf8_decode ''a.txt'' = u ''a.txt''"
  by (simp add: Let_def u_def)

lemma load_one_finding:
  "load_bad_lines (Parsed (JArr [JObj [(u ''File'', JStr (u ''a.txt'')), (u ''StartLine'', JInt k)]]))
     = Inr [(JStr (u ''a.txt''), JInt k)]"
  by (simp add: load_bad_lines_def u_def set_add_def)

theorem scrub_blanks_the_flagged_line_witness:
  "\<exists>w'. file_info_callback id id
           (Parsed (JArr [JObj [(u ''File'', JStr (u ''a.txt'')), (u ''StartLine'', JInt 2)]]))
           \<lparr>file_log = None, fetched = [], inserted = []\<rparr>
           ''a.txt'' (0::nat) ''x\<newline>SECRETKEY\<newline>y\<newline>''
         = (Inr (''a.txt'', 0, ''x\<newline>\<newline>y\<newline>''), w')
       \<and> inserted w' = [''x\<newline>\<newline>y\<newline>'']"
proof -
  let ?src = "Parsed (JArr [JObj [(u ''File'', JStr (u ''a.txt'')), (u ''StartLine'', JInt 2)]])"
  let ?bad = "[(JStr (u ''a.txt''), JInt 2)]"
  let ?w = "\<lparr>file_log = None, fetched = [], inserted = []\<rparr> :: bytes world"
  let ?c = "''x\<newline>SECRETKEY\<newline>y\<newline>''"
  have l: "load_bad_lines ?src = Inr ?bad" by (rule load_one_finding)
  have m: "(JStr (utf8_decode ''a.txt''), JInt 2) \<in> set ?bad" unfolding decode_a_txt by simp
  have a: "as_pyint (JInt 2) = Some (PInt 2)" by simp
  have d: "utf8_decode (id ?c) = [120, 10, 83, 69, 67, 82, 69, 84, 75, 69, 89, 10, 121, 10]"
    by (simp add: Let_def)
  have s: "splitlines (utf8_decode (id ?c)) = [[120], [83, 69, 67, 82, 69, 84, 75, 69, 89], [121]]"
    unfolding d by (simp add: linebreak_def)
  have p: "0 < int_of (PInt 2)" by simp
  have q: "int_of (PInt 2) \<le> int (length (splitlines (utf8_decode (id ?c))))"
    unfolding s by simp
  have t: "int_lines (utf8_decode ''a.txt'') ?bad" unfolding decode_a_txt by (simp add: int_lines_def)
  from scrub_blanks_the_flagged_line[of ?src ?bad "''a.txt''" "JInt 2" "PInt 2" id ?c id ?w "0::nat",
      OF l m a p q t]
  obtain ls' enc w' where c: "file_info_callback id id ?src ?w ''a.txt'' (0::nat) ?c
                               = (Inr (''a.txt'', 0, id (enc @ [CHR 0x0A])), w')"
    and i: "inserted w' = inserted ?w @ [enc @ [CHR 0x0A]]"
    and e: "utf8_encode (join [0x0A] ls') = Inr enc"
    and len: "length ls' = length (splitlines (utf8_decode (id ?c)))"
    and nth: "\<forall>i < length ls'.
               ls' ! i = (if flagged (utf8_decode ''a.txt'') ?bad (i + 1) then []
                          else splitlines (utf8_decode (id ?c)) ! i)"
    by blast
  have f: "\<And>k. flagged (utf8_decode ''a.txt'') ?bad k \<longleftrightarrow> k = 2"
    unfolding decode_a_txt by (auto simp add: flagged_def)
  from len have len3: "length ls' = 3" unfolding s by simp
  have "ls' = [[120], [], [121]]"
  proof (rule nth_equalityI)
    show "length ls' = length [[120], [], [121::nat]]" using len3 by simp
  next
    fix i assume "i < length ls'"
    with len3 have "i = 0 \<or> i = 1 \<or> i = 2" by auto
    with nth len3 show "ls' ! i = [[120], [], [121]] ! i" unfolding s f by auto
  qed
  with e have "utf8_encode [120, 10, 10, 121] = Inr enc" by simp
  moreover have "utf8_encode [120, 10, 10, 121] = Inr ''x\<newline>\<newline>y''" by code_simp
  ultimately have "enc = ''x\<newline>\<newline>y''" by simp
  with c i show ?thesis by simp
qed

lemma splitlines_break:
  assumes "\<forall>c \<in> set l. \<not> linebreak c" and "linebreak b" and "b = 0x0D \<longrightarrow> rest = [] \<or> hd rest \<noteq> 0x0A"
  shows "splitlines (l @ b # rest) = l # splitlines rest"
  using assms(1)
proof (induction l)
  case Nil
  show ?case
  proof (cases rest)
    case Nil
    with assms(2) show ?thesis by simp
  next
    case (Cons d ds)
    with assms(2,3) show ?thesis by auto
  qed
next
  case (Cons c l)
  then have nb: "\<not> linebreak c" and ih: "splitlines (l @ b # rest) = l # splitlines rest"
    by simp_all
  from nb have c13: "c \<noteq> 0x0D" by auto
  obtain d ds where dd: "l @ b # rest = d # ds" by (cases "l @ b # rest") auto
  have "splitlines (c # d # ds) = (case splitlines (d # ds) of [] \<Rightarrow> [[c]] | x # xs \<Rightarrow> (c # x) # xs)"
    using nb c13 by simp
  with dd ih show ?case by simp
qed

lemma splitlines_crlf:
  assumes "\<forall>c \<in> set l. \<not> linebreak c"
  shows "splitlines (l @ 0x0D # 0x0A # rest) = l # splitlines rest"
  using assms
proof (induction l)
  case Nil
  show ?case by simp
next
  case (Cons c l)
  then have nb: "\<not> linebreak c" and ih: "splitlines (l @ 0x0D # 0x0A # rest) = l # splitlines rest"
    by simp_all
  from nb have c13: "c \<noteq> 0x0D" by auto
  obtain d ds where dd: "l @ 0x0D # 0x0A # rest = d # ds" by (cases "l @ 0x0D # 0x0A # rest") auto
  have "splitlines (c # d # ds) = (case splitlines (d # ds) of [] \<Rightarrow> [[c]] | x # xs \<Rightarrow> (c # x) # xs)"
    using nb c13 by simp
  with dd ih show ?case by simp
qed

lemma output_no_return:
  assumes "utf8_encode (join [0x0A] (blanked p bad (splitlines (utf8_decode bs)))) = Inr enc"
  shows "CHR 0x0D \<notin> set (enc @ [CHR 0x0A])"
proof
  let ?t = "join [0x0A] (blanked p bad (splitlines (utf8_decode bs)))"
  assume "CHR 0x0D \<in> set (enc @ [CHR 0x0A])"
  then have m: "CHR 0x0D \<in> set enc" by simp
  have "(of_char (CHR 0x0D) :: nat) < 0x80" by simp
  from utf8_encode_ascii[OF blanked_scalar assms m this] have "(0x0D::nat) \<in> set ?t" by simp
  with join_set[of "[0x0A]" "blanked p bad (splitlines (utf8_decode bs))"]
  obtain l where "l \<in> set (blanked p bad (splitlines (utf8_decode bs)))" "(0x0D::nat) \<in> set l"
    by auto
  with blanked_no_break[of p bad "utf8_decode bs"] linebreak_return show False by blast
qed

lemma output_breaks:
  assumes "c \<in> set (join [0x0A] (blanked p bad (splitlines s)) @ [0x0A])" and "linebreak c"
  shows "c = 0x0A"
proof (rule ccontr)
  assume n: "c \<noteq> 0x0A"
  with assms(1) join_set[of "[0x0A]" "blanked p bad (splitlines s)"]
  obtain l where "l \<in> set (blanked p bad (splitlines s))" "c \<in> set l" by auto
  with blanked_no_break[of p bad s] assms(2) show False by blast
qed

text \<open>
  C10. Whenever the decoded path has a finding (and the findings of this path carry integer
  line numbers), the text of the written blob is the line buffer joined with \<open>\n\<close> plus a final
  \<open>\n\<close>, where the buffer holds the lines of the decoded content as \<open>splitlines\<close> cuts them:
  \<open>\r\n\<close> and a lone \<open>\r\<close> end a line like every other boundary, no line of the buffer contains
  a boundary character, and a line without a finding is the original line (a line with a
  finding is empty). So the only line
  boundary in the written text is \<open>\n\<close>, and the written bytes contain no carriage return.
\<close>

theorem scrub_normalizes_line_separators:
  assumes "load_bad_lines src = Inr bad"
    and "\<exists>(f, l) \<in> set bad. f = JStr (utf8_decode filename)"
    and "int_lines (utf8_decode filename) bad"
  shows "\<exists>ls' enc w'.
           file_info_callback get put src w filename mode blob_id
             = (Inr (filename, mode, put (enc @ [CHR 0x0A])), w')
         \<and> inserted w' = inserted w @ [enc @ [CHR 0x0A]]
         \<and> utf8_encode (join [0x0A] ls') = Inr enc
         \<and> utf8_decode (enc @ [CHR 0x0A]) = join [0x0A] ls' @ [0x0A]
         \<and> length ls' = length (splitlines (utf8_decode (get blob_id)))
         \<and> (\<forall>i < length ls'.
               ls' ! i = (if flagged (utf8_decode filename) bad (i + 1) then []
                          else splitlines (utf8_decode (get blob_id)) ! i))
         \<and> (\<forall>l \<in> set ls'. \<forall>c \<in> set l. \<not> linebreak c)
         \<and> (\<forall>c \<in> set (utf8_decode (enc @ [CHR 0x0A])). linebreak c \<longrightarrow> c = 0x0A)
         \<and> CHR 0x0D \<notin> set (enc @ [CHR 0x0A])
         \<and> (\<forall>l rest. (\<forall>c \<in> set l. \<not> linebreak c) \<longrightarrow>
               splitlines (l @ 0x0D # 0x0A # rest) = l # splitlines rest
             \<and> (rest = [] \<or> hd rest \<noteq> 0x0A \<longrightarrow> splitlines (l @ 0x0D # rest) = l # splitlines rest))"
proof -
  let ?p = "utf8_decode filename"
  let ?ls = "splitlines (utf8_decode (get blob_id))"
  let ?b = "blanked ?p bad ?ls"
  from scrub_rewrites[OF assms, of get blob_id put w mode]
  obtain enc w' where e: "utf8_encode (join [0x0A] ?b) = Inr enc"
    and c: "file_info_callback get put src w filename mode blob_id
              = (Inr (filename, mode, put (enc @ [CHR 0x0A])), w')"
    and i: "inserted w' = inserted w @ [enc @ [CHR 0x0A]]" by blast
  have t: "utf8_decode (enc @ [CHR 0x0A]) = join [0x0A] ?b @ [0x0A]"
    by (rule output_text[OF e])
  have n: "\<forall>i < length ?b. ?b ! i = (if flagged ?p bad (i + 1) then [] else ?ls ! i)"
    by (simp add: blanked_nth)
  have nb: "\<forall>l \<in> set ?b. \<forall>c \<in> set l. \<not> linebreak c" by (rule blanked_no_break)
  have ob: "\<forall>c \<in> set (utf8_decode (enc @ [CHR 0x0A])). linebreak c \<longrightarrow> c = 0x0A"
    unfolding t using output_breaks[of _ ?p bad "utf8_decode (get blob_id)"] by blast
  have cr: "CHR 0x0D \<notin> set (enc @ [CHR 0x0A])" by (rule output_no_return[OF e])
  have sp: "\<forall>l rest. (\<forall>c \<in> set l. \<not> linebreak c) \<longrightarrow>
               splitlines (l @ 0x0D # 0x0A # rest) = l # splitlines rest
             \<and> (rest = [] \<or> hd rest \<noteq> 0x0A \<longrightarrow> splitlines (l @ 0x0D # rest) = l # splitlines rest)"
    using splitlines_crlf splitlines_break[where b = "0x0D"] by simp
  have len: "length ?b = length ?ls" by simp
  show ?thesis
    by (intro exI[of _ ?b] exI[of _ enc] exI[of _ w'] conjI) (rule c i e t len n nb ob cr sp)+
qed



theorem scrub_normalizes_line_separators_witness:
  "\<exists>w'. file_info_callback id id
           (Parsed (JArr [JObj [(u ''File'', JStr (u ''a.txt'')), (u ''StartLine'', JInt 1)]]))
           \<lparr>file_log = None, fetched = [], inserted = []\<rparr>
           ''a.txt'' (0::nat) [CHR ''s'', CHR 0x0D, CHR 0x0A, CHR ''o'', CHR ''k'', CHR 0x0D, CHR ''e'']
         = (Inr (''a.txt'', 0, ''\<newline>ok\<newline>e\<newline>''), w')
       \<and> CHR 0x0D \<notin> set ''\<newline>ok\<newline>e\<newline>''"
proof -
  let ?src = "Parsed (JArr [JObj [(u ''File'', JStr (u ''a.txt'')), (u ''StartLine'', JInt 1)]])"
  let ?bad = "[(JStr (u ''a.txt''), JInt 1)]"
  let ?w = "\<lparr>file_log = None, fetched = [], inserted = []\<rparr> :: bytes world"
  let ?c = "[CHR ''s'', CHR 0x0D, CHR 0x0A, CHR ''o'', CHR ''k'', CHR 0x0D, CHR ''e'']"
  have l: "load_bad_lines ?src = Inr ?bad" by (rule load_one_finding)
  have h: "\<exists>(f, l) \<in> set ?bad. f = JStr (utf8_decode ''a.txt'')" unfolding decode_a_txt by simp
  have t: "int_lines (utf8_decode ''a.txt'') ?bad" unfolding decode_a_txt by (simp add: int_lines_def)
  have d: "utf8_decode (id ?c) = [115, 13, 10, 111, 107, 13, 101]"
    by (simp add: Let_def)
  have s: "splitlines (utf8_decode (id ?c)) = [[115], [111, 107], [101]]"
    unfolding d by (simp add: linebreak_def)
  from scrub_normalizes_line_separators[of ?src ?bad "''a.txt''" id id ?w "0::nat" ?c, OF l h t]
  obtain ls' enc w' where c: "file_info_callback id id ?src ?w ''a.txt'' (0::nat) ?c
                               = (Inr (''a.txt'', 0, id (enc @ [CHR 0x0A])), w')"
    and e: "utf8_encode (join [0x0A] ls') = Inr enc"
    and len: "length ls' = length (splitlines (utf8_decode (id ?c)))"
    and nth: "\<forall>i < length ls'.
               ls' ! i = (if flagged (utf8_decode ''a.txt'') ?bad (i + 1) then []
                          else splitlines (utf8_decode (id ?c)) ! i)"
    and cr: "CHR 0x0D \<notin> set (enc @ [CHR 0x0A])"
    by (elim exE conjE) (rule that; assumption)
  have f: "\<And>k. flagged (utf8_decode ''a.txt'') ?bad k \<longleftrightarrow> k = 1"
    unfolding decode_a_txt by (auto simp add: flagged_def)
  from len have len3: "length ls' = 3" unfolding s by simp
  have "ls' = [[], [111, 107], [101]]"
  proof (rule nth_equalityI)
    show "length ls' = length [[], [111, 107], [101::nat]]" using len3 by simp
  next
    fix i assume "i < length ls'"
    with len3 have "i = 0 \<or> i = 1 \<or> i = 2" by auto
    with nth len3 show "ls' ! i = [[], [111, 107], [101]] ! i" unfolding s f by auto
  qed
  with e have "utf8_encode [10, 111, 107, 10, 101] = Inr enc" by simp
  moreover have "utf8_encode [10, 111, 107, 10, 101] = Inr ''\<newline>ok\<newline>e''" by code_simp
  ultimately have "enc = ''\<newline>ok\<newline>e''" by simp
  with c cr show ?thesis by simp
qed

lemma blanked_ends_newline:
  "(join [0x0A] (blanked p bad (splitlines s)) \<noteq> []
      \<and> last (join [0x0A] (blanked p bad (splitlines s))) = 0x0A)
   \<longleftrightarrow> (2 \<le> length (splitlines s) \<and> last (blanked p bad (splitlines s)) = [])"
proof -
  have "\<forall>l \<in> set (blanked p bad (splitlines s)). (0x0A::nat) \<notin> set l"
    using blanked_no_break[of p bad s] linebreak_newline by blast
  from join_ends_newline[OF this] show ?thesis by simp
qed

lemma encode_char_nl: "encode_char 0x0A = Inr [CHR 0x0A]"
  by code_simp

lemma encode_char_newline:
  assumes "scalar c" "encode_char c = Inr x"
  shows "c = 0x0A \<longrightarrow> x = [CHR 0x0A]"
proof
  assume c: "c = 0x0A"
  with assms(2) show "x = [CHR 0x0A]" by (simp add: encode_char_nl)
qed

lemma utf8_encode_trailing:
  assumes "\<forall>c \<in> set s. scalar c" "utf8_encode s = Inr bs"
  shows "trailing_newlines bs = length (takeWhile (\<lambda>c. c = 0x0A) (rev s))"
  using assms
proof (induction s arbitrary: bs rule: rev_induct)
  case Nil
  then show ?case by (simp add: trailing_newlines_def)
next
  case (snoc c s0)
  from snoc.prems(1) have sc: "scalar c" and s0: "\<forall>c \<in> set s0. scalar c" by auto
  from utf8_encode_scalar[OF s0] obtain y where y: "utf8_encode s0 = Inr y" by auto
  from encode_char_scalar[OF sc] obtain x where x: "encode_char c = Inr x" by auto
  from x have "utf8_encode [c] = Inr x" by simp
  with y snoc.prems(2) have bs: "bs = y @ x" by (simp add: utf8_encode_append)
  from encode_char_last[OF sc x] have ne: "x \<noteq> []" and la: "last x = CHR 0x0A \<longleftrightarrow> c = 0x0A"
    by simp_all
  show ?case
  proof (cases "c = 0x0A")
    case True
    with encode_char_newline[OF sc x] have "x = [CHR 0x0A]" by simp
    with bs True snoc.IH[OF s0 y] show ?thesis by (simp add: trailing_newlines_def)
  next
    case False
    from ne obtain x0 z where xz: "x = x0 @ [z]" by (cases x rule: rev_cases) auto
    with la False have "z \<noteq> CHR 0x0A" by simp
    with xz have "takeWhile (\<lambda>b. b = CHR 0x0A) (rev (y @ x)) = []" by simp
    with bs False show ?thesis by (simp add: trailing_newlines_def)
  qed
qed

lemma trailing_empty_snoc:
  "trailing_empty (ls @ [l]) = (if l = [] then trailing_empty ls + 1 else 0)"
  by (simp add: trailing_empty_def)

lemma join_trailing:
  assumes "\<forall>l \<in> set ls. (0x0A::nat) \<notin> set l"
  shows "length (takeWhile (\<lambda>c. c = 0x0A) (rev (join [0x0A] ls @ [0x0A])))
           = (if \<forall>l \<in> set ls. l = [] then max 1 (length ls) else trailing_empty ls + 1)"
  using assms
proof (induction ls rule: rev_induct)
  case Nil
  then show ?case by simp
next
  case (snoc l ls0)
  then have l: "(0x0A::nat) \<notin> set l" and r: "\<forall>l \<in> set ls0. (0x0A::nat) \<notin> set l" by simp_all
  note ih = snoc.IH[OF r]
  show ?case
  proof (cases "l = []")
    case False
    then obtain l0 z where lz: "l = l0 @ [z]" by (cases l rule: rev_cases) auto
    with l have "z \<noteq> 0x0A" by auto
    with lz have "takeWhile (\<lambda>c. c = (0x0A::nat)) (rev l @ xs) = []"
      and "takeWhile (\<lambda>c. c = (0x0A::nat)) (rev l) = []" for xs by simp_all
    then have "length (takeWhile (\<lambda>c. c = 0x0A) (rev (join [0x0A] (ls0 @ [l]) @ [0x0A]))) = 1"
      by (simp add: join_snoc)
    with False show ?thesis by (simp add: trailing_empty_snoc)
  next
    case True
    show ?thesis
    proof (cases "ls0 = []")
      case e: True
      with True show ?thesis by simp
    next
      case ne: False
      then have len: "1 \<le> length ls0" by (cases ls0) auto
      from True ne
      have "length (takeWhile (\<lambda>c. c = 0x0A) (rev (join [0x0A] (ls0 @ [l]) @ [0x0A])))
              = 1 + length (takeWhile (\<lambda>c. c = 0x0A) (rev (join [0x0A] ls0 @ [0x0A])))"
        by (simp add: join_snoc)
      with ih True len show ?thesis by (auto simp: trailing_empty_snoc)
    qed
  qed
qed

lemma output_trailing:
  assumes "utf8_encode (join [0x0A] (blanked p bad (splitlines (utf8_decode bs)))) = Inr enc"
  shows "trailing_newlines (enc @ [CHR 0x0A])
           = (if \<forall>l \<in> set (blanked p bad (splitlines (utf8_decode bs))). l = []
              then max 1 (length (blanked p bad (splitlines (utf8_decode bs))))
              else trailing_empty (blanked p bad (splitlines (utf8_decode bs))) + 1)"
proof -
  let ?b = "blanked p bad (splitlines (utf8_decode bs))"
  have sc: "\<forall>c \<in> set (join [0x0A] ?b @ [0x0A]). scalar c"
    using blanked_scalar[of p bad bs] by (auto simp: scalar_def)
  have en: "utf8_encode (join [0x0A] ?b @ [0x0A]) = Inr (enc @ [CHR 0x0A])"
    using assms by (simp add: utf8_encode_append encode_char_nl)
  have nl: "\<forall>l \<in> set ?b. (0x0A::nat) \<notin> set l"
    using blanked_no_break[of p bad "utf8_decode bs"] linebreak_newline by blast
  from utf8_encode_trailing[OF sc en] join_trailing[OF nl] show ?thesis by simp
qed

text \<open>
  C5, as the code has it. Whenever the decoded path has a finding (and the findings of this
  path carry integer line numbers), the written blob is the UTF-8 encoding of the buffer
  lines joined with single newlines, followed by one appended newline byte; its text is that
  joined text plus a newline. So it always ends in a newline. The number of newlines it ends
  in is one more than the number of empty lines at the end of the buffer (empty in the
  original or blanked by a finding), or, when every buffer line is empty, the number of
  buffer lines, and one for an empty buffer. In particular the part before the appended
  newline itself ends in a newline exactly when the buffer has at least two lines and its
  last line is empty: only then does the blob end in more than one newline.
\<close>

theorem scrub_appends_one_newline:
  assumes "load_bad_lines src = Inr bad"
    and "\<exists>(f, l) \<in> set bad. f = JStr (utf8_decode filename)"
    and "int_lines (utf8_decode filename) bad"
  shows "\<exists>ls' enc w'.
           file_info_callback get put src w filename mode blob_id
             = (Inr (filename, mode, put (enc @ [CHR 0x0A])), w')
         \<and> inserted w' = inserted w @ [enc @ [CHR 0x0A]]
         \<and> utf8_encode (join [0x0A] ls') = Inr enc
         \<and> utf8_decode (enc @ [CHR 0x0A]) = join [0x0A] ls' @ [0x0A]
         \<and> length ls' = length (splitlines (utf8_decode (get blob_id)))
         \<and> (\<forall>i < length ls'.
               ls' ! i = (if flagged (utf8_decode filename) bad (i + 1) then []
                          else splitlines (utf8_decode (get blob_id)) ! i))
         \<and> last (enc @ [CHR 0x0A]) = CHR 0x0A
         \<and> ((enc \<noteq> [] \<and> last enc = CHR 0x0A) \<longleftrightarrow> (2 \<le> length ls' \<and> last ls' = []))
         \<and> trailing_newlines (enc @ [CHR 0x0A])
             = (if \<forall>l \<in> set ls'. l = [] then max 1 (length ls') else trailing_empty ls' + 1)"
proof -
  let ?p = "utf8_decode filename"
  let ?ls = "splitlines (utf8_decode (get blob_id))"
  let ?b = "blanked ?p bad ?ls"
  from scrub_rewrites[OF assms, of get blob_id put w mode]
  obtain enc w' where e: "utf8_encode (join [0x0A] ?b) = Inr enc"
    and c: "file_info_callback get put src w filename mode blob_id
              = (Inr (filename, mode, put (enc @ [CHR 0x0A])), w')"
    and i: "inserted w' = inserted w @ [enc @ [CHR 0x0A]]" by blast
  have t: "utf8_decode (enc @ [CHR 0x0A]) = join [0x0A] ?b @ [0x0A]"
    by (rule output_text[OF e])
  have len: "length ?b = length ?ls" by simp
  have n: "\<forall>i < length ?b. ?b ! i = (if flagged ?p bad (i + 1) then [] else ?ls ! i)"
    by (simp add: blanked_nth)
  have la: "last (enc @ [CHR 0x0A]) = CHR 0x0A" by simp
  have "(enc \<noteq> [] \<and> last enc = CHR 0x0A)
          \<longleftrightarrow> (join [0x0A] ?b \<noteq> [] \<and> last (join [0x0A] ?b) = 0x0A)"
    by (rule utf8_encode_last[OF blanked_scalar e])
  also have "\<dots> \<longleftrightarrow> (2 \<le> length ?ls \<and> last ?b = [])"
    by (rule blanked_ends_newline)
  finally have two: "(enc \<noteq> [] \<and> last enc = CHR 0x0A) \<longleftrightarrow> (2 \<le> length ?b \<and> last ?b = [])"
    by simp
  have tr: "trailing_newlines (enc @ [CHR 0x0A])
             = (if \<forall>l \<in> set ?b. l = [] then max 1 (length ?b) else trailing_empty ?b + 1)"
    by (rule output_trailing[OF e])
  show ?thesis
    by (intro exI[of _ ?b] exI[of _ enc] exI[of _ w'] conjI) (rule c i e t len n la two tr)+
qed

lemma load_two_findings:
  "load_bad_lines (Parsed (JArr
      [JObj [(u ''File'', JStr (u ''a.txt'')), (u ''StartLine'', JInt 2)],
       JObj [(u ''File'', JStr (u ''a.txt'')), (u ''StartLine'', JInt 3)]]))
     = Inr [(JStr (u ''a.txt''), JInt 2), (JStr (u ''a.txt''), JInt 3)]"
  by (simp add: load_bad_lines_def u_def set_add_def)

theorem scrub_appends_one_newline_witness:
  "\<exists>w'. file_info_callback id id
           (Parsed (JArr
              [JObj [(u ''File'', JStr (u ''a.txt'')), (u ''StartLine'', JInt 2)],
               JObj [(u ''File'', JStr (u ''a.txt'')), (u ''StartLine'', JInt 3)]]))
           \<lparr>file_log = None, fetched = [], inserted = []\<rparr>
           ''a.txt'' (0::nat) ''a\<newline>S\<newline>T''
         = (Inr (''a.txt'', 0, ''a\<newline>\<newline>\<newline>''), w')
       \<and> inserted w' = [''a\<newline>\<newline>\<newline>'']
       \<and> trailing_newlines ''a\<newline>\<newline>\<newline>'' = 3"
proof -
  let ?src = "Parsed (JArr
              [JObj [(u ''File'', JStr (u ''a.txt'')), (u ''StartLine'', JInt 2)],
               JObj [(u ''File'', JStr (u ''a.txt'')), (u ''StartLine'', JInt 3)]])"
  let ?bad = "[(JStr (u ''a.txt''), JInt 2), (JStr (u ''a.txt''), JInt 3)]"
  let ?w = "\<lparr>file_log = None, fetched = [], inserted = []\<rparr> :: bytes world"
  let ?c = "''a\<newline>S\<newline>T''"
  have l: "load_bad_lines ?src = Inr ?bad" by (rule load_two_findings)
  have h: "\<exists>(f, l) \<in> set ?bad. f = JStr (utf8_decode ''a.txt'')" unfolding decode_a_txt by simp
  have t: "int_lines (utf8_decode ''a.txt'') ?bad" unfolding decode_a_txt by (simp add: int_lines_def)
  have d: "utf8_decode (id ?c) = [97, 10, 83, 10, 84]"
    by (simp add: Let_def)
  have s: "splitlines (utf8_decode (id ?c)) = [[97], [83], [84]]"
    unfolding d by (simp add: linebreak_def)
  from scrub_appends_one_newline[of ?src ?bad "''a.txt''" id id ?w "0::nat" ?c, OF l h t]
  obtain ls' enc w' where c: "file_info_callback id id ?src ?w ''a.txt'' (0::nat) ?c
                               = (Inr (''a.txt'', 0, id (enc @ [CHR 0x0A])), w')"
    and i: "inserted w' = inserted ?w @ [enc @ [CHR 0x0A]]"
    and e: "utf8_encode (join [0x0A] ls') = Inr enc"
    and len: "length ls' = length (splitlines (utf8_decode (id ?c)))"
    and nth: "\<forall>i < length ls'.
               ls' ! i = (if flagged (utf8_decode ''a.txt'') ?bad (i + 1) then []
                          else splitlines (utf8_decode (id ?c)) ! i)"
    and tr: "trailing_newlines (enc @ [CHR 0x0A])
             = (if \<forall>l \<in> set ls'. l = [] then max 1 (length ls') else trailing_empty ls' + 1)"
    by (elim exE conjE) (rule that; assumption)
  have f: "\<And>k. flagged (utf8_decode ''a.txt'') ?bad k \<longleftrightarrow> k = 2 \<or> k = 3"
    unfolding decode_a_txt by (auto simp add: flagged_def)
  from len have len3: "length ls' = 3" unfolding s by simp
  have ls: "ls' = [[97], [], []]"
  proof (rule nth_equalityI)
    show "length ls' = length [[97], [], [] :: nat list]" using len3 by simp
  next
    fix i assume "i < length ls'"
    with len3 have "i = 0 \<or> i = 1 \<or> i = 2" by auto
    with nth len3 show "ls' ! i = [[97], [], []] ! i" unfolding s f by auto
  qed
  with e have "utf8_encode [97, 10, 10] = Inr enc" by simp
  moreover have "utf8_encode [97, 10, 10] = Inr ''a\<newline>\<newline>''" by code_simp
  ultimately have enc: "enc = ''a\<newline>\<newline>''" by simp
  from tr have "trailing_newlines ''a\<newline>\<newline>\<newline>'' = 3"
    unfolding enc ls by (simp add: trailing_empty_def)
  with c i enc show ?thesis by simp
qed

text \<open>
  C5 in the specification's wording (exactly one trailing newline) does not hold where the
  last line is blanked: the content \<open>x\nSECRETKEY\<close> with a finding at line 2 is written back
  as \<open>x\n\n\<close>, which ends in two newlines.
\<close>

theorem scrub_two_trailing_newlines_counterexample:
  "fst (file_info_callback id id
          (Parsed (JArr [JObj [(u ''File'', JStr (u ''a.txt'')), (u ''StartLine'', JInt 2)]]))
          \<lparr>file_log = None, fetched = [], inserted = []\<rparr>
          ''a.txt'' (0::nat) ''x\<newline>SECRETKEY'')
     = Inr (''a.txt'', 0, ''x\<newline>\<newline>'')
   \<and> last (butlast ''x\<newline>\<newline>'') = CHR 0x0A"
proof -
  let ?src = "Parsed (JArr [JObj [(u ''File'', JStr (u ''a.txt'')), (u ''StartLine'', JInt 2)]])"
  let ?bad = "[(JStr (u ''a.txt''), JInt 2)]"
  let ?w = "\<lparr>file_log = None, fetched = [], inserted = []\<rparr> :: bytes world"
  let ?c = "''x\<newline>SECRETKEY''"
  have l: "load_bad_lines ?src = Inr ?bad" by (rule load_one_finding)
  have h: "\<exists>(f, l) \<in> set ?bad. f = JStr (utf8_decode ''a.txt'')" unfolding decode_a_txt by simp
  have t: "int_lines (utf8_decode ''a.txt'') ?bad" unfolding decode_a_txt by (simp add: int_lines_def)
  have d: "utf8_decode (id ?c) = [120, 10, 83, 69, 67, 82, 69, 84, 75, 69, 89]"
    by (simp add: Let_def)
  have s: "splitlines (utf8_decode (id ?c)) = [[120], [83, 69, 67, 82, 69, 84, 75, 69, 89]]"
    unfolding d by (simp add: linebreak_def)
  have f: "\<And>k. flagged (u ''a.txt'') ?bad k \<longleftrightarrow> k = 2"
    by (auto simp add: flagged_def)
  have u2: "[0..<2] = [0, Suc 0]" by (simp add: upt_rec)
  have b: "blanked (utf8_decode ''a.txt'') ?bad (splitlines (utf8_decode (id ?c))) = [[120], []]"
    unfolding s decode_a_txt by (simp add: blanked_def f u2)
  from scrub_rewrites[of ?src ?bad "''a.txt''" id ?c id ?w "0::nat", OF l h t]
  obtain enc w' where e: "utf8_encode (join [0x0A]
             (blanked (utf8_decode ''a.txt'') ?bad (splitlines (utf8_decode (id ?c))))) = Inr enc"
    and c: "file_info_callback id id ?src ?w ''a.txt'' (0::nat) ?c
              = (Inr (''a.txt'', 0, id (enc @ [CHR 0x0A])), w')"
    by (elim exE conjE) (rule that; assumption)
  from e have "utf8_encode [120, 10] = Inr enc" unfolding b by simp
  moreover have "utf8_encode [120, 10] = Inr ''x\<newline>''" by code_simp
  ultimately have "enc = ''x\<newline>''" by simp
  with c show ?thesis by simp
qed

lemma out_of_range_int_lines:
  assumes "\<forall>(f, l) \<in> set bad. f = JStr p \<longrightarrow>
             (\<exists>n. as_pyint l = Some n \<and> \<not> (0 < int_of n \<and> int_of n \<le> int (length ls)))"
  shows "int_lines p bad"
  using assms by (fastforce simp: int_lines_def)

lemma out_of_range_unflagged:
  assumes "\<forall>(f, l) \<in> set bad. f = JStr p \<longrightarrow>
             (\<exists>n. as_pyint l = Some n \<and> \<not> (0 < int_of n \<and> int_of n \<le> int (length ls)))"
  shows "\<forall>i < length ls. \<not> flagged p bad (i + 1)"
proof (intro allI impI notI)
  fix i assume i: "i < length ls" and "flagged p bad (i + 1)"
  then obtain l where m: "(JStr p, l) \<in> set bad"
    and v: "map_option int_of (as_pyint l) = Some (int (i + 1))"
    by (auto simp: flagged_def)
  from assms m obtain n where n: "as_pyint l = Some n"
    and o: "\<not> (0 < int_of n \<and> int_of n \<le> int (length ls))" by fastforce
  from v n have "int_of n = int (i + 1)" by simp
  with o i show False by simp
qed

text \<open>
  C4, as the code has it. When every finding of the decoded path carries an integer line
  number that is zero, negative or greater than the number of lines of the decoded content,
  the callback returns normally and no line is changed: the written blob is the encoding of
  the original lines joined with newlines plus a final newline, and unless the content is
  empty its lines are the lines of the original content. The log gains the four entries of
  a rewrite with \<open>Modified 0 lines\<close> and no \<open>Removed secret\<close> entry. The bytes are those of the
  original only up to this re-joining of the lines.
\<close>

theorem scrub_skips_out_of_range_findings:
  assumes "load_bad_lines src = Inr bad"
    and "\<exists>(f, l) \<in> set bad. f = JStr (utf8_decode filename)"
    and "\<forall>(f, l) \<in> set bad. f = JStr (utf8_decode filename) \<longrightarrow>
           (\<exists>n. as_pyint l = Some n
              \<and> \<not> (0 < int_of n
                    \<and> int_of n \<le> int (length (splitlines (utf8_decode (get blob_id))))))"
  shows "\<exists>enc.
           utf8_encode (join [0x0A] (splitlines (utf8_decode (get blob_id)))) = Inr enc
         \<and> file_info_callback get put src w filename mode blob_id
             = (Inr (filename, mode, put (enc @ [CHR 0x0A])),
                w\<lparr>fetched := fetched w @ [blob_id],
                  file_log := log_callback ''FILE_INFO''
                     (u (''Modified '' @ str_nat 0 @ '' lines in '') @ utf8_decode filename
                        @ u ('' (original: ''
                               @ str_nat (length (splitlines (utf8_decode (get blob_id))))
                               @ '' lines)''))
                     (log_callback ''FILE_INFO''
                        (u ''Found secrets in '' @ utf8_decode filename @ u '', processing...'')
                        (log_callback ''FILE_INFO'' (u ''Processing file: '' @ utf8_decode filename)
                           (log_callback ''FILE_INFO''
                              (u (''Loaded '' @ str_nat (length bad)
                                    @ '' secret locations from gitleaks file''))
                              (file_log w)))),
                  inserted := inserted w @ [enc @ [CHR 0x0A]]\<rparr>)
         \<and> utf8_decode (enc @ [CHR 0x0A])
             = join [0x0A] (splitlines (utf8_decode (get blob_id))) @ [0x0A]
         \<and> (utf8_decode (get blob_id) \<noteq> [] \<longrightarrow>
               splitlines (utf8_decode (enc @ [CHR 0x0A])) = splitlines (utf8_decode (get blob_id)))"
proof -
  let ?p = "utf8_decode filename"
  let ?ls = "splitlines (utf8_decode (get blob_id))"
  let ?lg3 = "log_callback ''FILE_INFO''
              (u ''Found secrets in '' @ ?p @ u '', processing...'')
              (log_callback ''FILE_INFO'' (u ''Processing file: '' @ ?p)
                 (log_callback ''FILE_INFO''
                    (u (''Loaded '' @ str_nat (length bad) @ '' secret locations from gitleaks file''))
                    (file_log w)))"
  have ty: "int_lines ?p bad" by (rule out_of_range_int_lines[OF assms(3)])
  have nf: "\<forall>i < length ?ls. \<not> flagged ?p bad (i + 1)" by (rule out_of_range_unflagged[OF assms(3)])
  have b: "blanked ?p bad ?ls = ?ls" by (rule blanked_unflagged[OF nf])
  have cl: "clean_lines ?p bad ?ls 0 ?lg3 = (Inr (?ls, 0), ?lg3)"
    by (rule clean_lines_skip[OF ty nf])
  from utf8_encode_scalar[OF blanked_scalar, of ?p bad "get blob_id"] b
  obtain enc where e: "utf8_encode (join [0x0A] ?ls) = Inr enc" by auto
  have eb: "utf8_encode (join [0x0A] (blanked ?p bad ?ls)) = Inr enc" using e b by simp
  note cb = callback_secret[of src bad filename get blob_id w ?ls 0 ?lg3 enc put mode,
      OF assms(1,2) cl e]
  have t: "utf8_decode (enc @ [CHR 0x0A]) = join [0x0A] ?ls @ [0x0A]"
    using output_text[OF eb] b by simp
  have r: "utf8_decode (get blob_id) \<noteq> [] \<longrightarrow> splitlines (utf8_decode (enc @ [CHR 0x0A])) = ?ls"
    using output_lines[OF eb] b by simp
  show ?thesis
    by (intro exI[of _ enc] conjI) (rule e cb t r)+
qed

lemma load_three_findings:
  "load_bad_lines (Parsed (JArr
      [JObj [(u ''File'', JStr (u ''a.txt'')), (u ''StartLine'', JInt 0)],
       JObj [(u ''File'', JStr (u ''a.txt'')), (u ''StartLine'', JInt (- 1))],
       JObj [(u ''File'', JStr (u ''a.txt'')), (u ''StartLine'', JInt 3)]]))
     = Inr [(JStr (u ''a.txt''), JInt 0), (JStr (u ''a.txt''), JInt (- 1)), (JStr (u ''a.txt''), JInt 3)]"
  by (simp add: load_bad_lines_def u_def set_add_def)

theorem scrub_skips_out_of_range_findings_witness:
  "file_info_callback id id
     (Parsed (JArr
        [JObj [(u ''File'', JStr (u ''a.txt'')), (u ''StartLine'', JInt 0)],
         JObj [(u ''File'', JStr (u ''a.txt'')), (u ''StartLine'', JInt (- 1))],
         JObj [(u ''File'', JStr (u ''a.txt'')), (u ''StartLine'', JInt 3)]]))
     \<lparr>file_log = None, fetched = [], inserted = []\<rparr>
     ''a.txt'' (0::nat) ''x\<newline>y\<newline>''
   = (Inr (''a.txt'', 0, ''x\<newline>y\<newline>''),
      \<lparr>file_log = None, fetched = [''x\<newline>y\<newline>''], inserted = [''x\<newline>y\<newline>'']\<rparr>)"
proof -
  let ?src = "Parsed (JArr
        [JObj [(u ''File'', JStr (u ''a.txt'')), (u ''StartLine'', JInt 0)],
         JObj [(u ''File'', JStr (u ''a.txt'')), (u ''StartLine'', JInt (- 1))],
         JObj [(u ''File'', JStr (u ''a.txt'')), (u ''StartLine'', JInt 3)]])"
  let ?bad = "[(JStr (u ''a.txt''), JInt 0), (JStr (u ''a.txt''), JInt (- 1)), (JStr (u ''a.txt''), JInt 3)]"
  let ?w = "\<lparr>file_log = None, fetched = [], inserted = []\<rparr> :: bytes world"
  let ?c = "''x\<newline>y\<newline>''"
  have l: "load_bad_lines ?src = Inr ?bad" by (rule load_three_findings)
  have h: "\<exists>(f, l) \<in> set ?bad. f = JStr (utf8_decode ''a.txt'')" unfolding decode_a_txt by simp
  have d: "utf8_decode (id ?c) = [120, 10, 121, 10]"
    by (simp add: Let_def)
  have s: "splitlines (utf8_decode (id ?c)) = [[120], [121]]"
    unfolding d by (simp add: linebreak_def)
  have o: "\<forall>(f, l) \<in> set ?bad. f = JStr (utf8_decode ''a.txt'') \<longrightarrow>
           (\<exists>n. as_pyint l = Some n
              \<and> \<not> (0 < int_of n \<and> int_of n \<le> int (length (splitlines (utf8_decode (id ?c))))))"
    unfolding s by simp
  from scrub_skips_out_of_range_findings[of ?src ?bad "''a.txt''" id ?c id ?w "0::nat", OF l h o]
  obtain enc where e: "utf8_encode (join [0x0A] (splitlines (utf8_decode (id ?c)))) = Inr enc"
    and c: "file_info_callback id id ?src ?w ''a.txt'' (0::nat) ?c
             = (Inr (''a.txt'', 0, id (enc @ [CHR 0x0A])),
                ?w\<lparr>fetched := fetched ?w @ [?c],
                  file_log := log_callback ''FILE_INFO''
                     (u (''Modified '' @ str_nat 0 @ '' lines in '') @ utf8_decode ''a.txt''
                        @ u ('' (original: ''
                               @ str_nat (length (splitlines (utf8_decode (id ?c))))
                               @ '' lines)''))
                     (log_callback ''FILE_INFO''
                        (u ''Found secrets in '' @ utf8_decode ''a.txt'' @ u '', processing...'')
                        (log_callback ''FILE_INFO'' (u ''Processing file: '' @ utf8_decode ''a.txt'')
                           (log_callback ''FILE_INFO''
                              (u (''Loaded '' @ str_nat (length ?bad)
                                    @ '' secret locations from gitleaks file''))
                              (file_log ?w)))),
                  inserted := inserted ?w @ [enc @ [CHR 0x0A]]\<rparr>)"
    by (elim exE conjE) (rule that; assumption)
  from e have "utf8_encode [120, 10, 121] = Inr enc" unfolding s by simp
  moreover have "utf8_encode [120, 10, 121] = Inr ''x\<newline>y''" by code_simp
  ultimately have enc: "enc = ''x\<newline>y''" by simp
  show ?thesis unfolding c enc by (simp add: log_callback_def)
qed

text \<open>
  C4 in the specification's wording (content unchanged) does not hold for a content that is
  not already in the re-joined form: \<open>abc\<close> without a final newline, with a finding at line
  0, is written back as \<open>abc\n\<close>.
\<close>

theorem scrub_out_of_range_changes_bytes_counterexample:
  "fst (file_info_callback id id
          (Parsed (JArr [JObj [(u ''File'', JStr (u ''a.txt'')), (u ''StartLine'', JInt 0)]]))
          \<lparr>file_log = None, fetched = [], inserted = []\<rparr>
          ''a.txt'' (0::nat) ''abc'')
     = Inr (''a.txt'', 0, ''abc\<newline>'')
   \<and> ''abc\<newline>'' \<noteq> ''abc''"
proof -
  let ?src = "Parsed (JArr [JObj [(u ''File'', JStr (u ''a.txt'')), (u ''StartLine'', JInt 0)]])"
  let ?bad = "[(JStr (u ''a.txt''), JInt 0)]"
  let ?w = "\<lparr>file_log = None, fetched = [], inserted = []\<rparr> :: bytes world"
  let ?c = "''abc''"
  have l: "load_bad_lines ?src = Inr ?bad" by (rule load_one_finding)
  have h: "\<exists>(f, l) \<in> set ?bad. f = JStr (utf8_decode ''a.txt'')" unfolding decode_a_txt by simp
  have t: "int_lines (utf8_decode ''a.txt'') ?bad" unfolding decode_a_txt by (simp add: int_lines_def)
  have d: "utf8_decode (id ?c) = [97, 98, 99]"
    by (simp add: Let_def)
  have s: "splitlines (utf8_decode (id ?c)) = [[97, 98, 99]]"
    unfolding d by (simp add: linebreak_def)
  have f: "\<And>k. flagged (u ''a.txt'') ?bad k \<longleftrightarrow> k = 0"
    by (auto simp add: flagged_def)
  have u1: "[0..<1] = [0]" by (simp add: upt_rec)
  have b: "blanked (utf8_decode ''a.txt'') ?bad (splitlines (utf8_decode (id ?c))) = [[97, 98, 99]]"
    unfolding s decode_a_txt by (simp add: blanked_def f u1)
  from scrub_rewrites[of ?src ?bad "''a.txt''" id ?c id ?w "0::nat", OF l h t]
  obtain enc w' where e: "utf8_encode (join [0x0A]
             (blanked (utf8_decode ''a.txt'') ?bad (splitlines (utf8_decode (id ?c))))) = Inr enc"
    and c: "file_info_callback id id ?src ?w ''a.txt'' (0::nat) ?c
              = (Inr (''a.txt'', 0, id (enc @ [CHR 0x0A])), w')"
    by (elim exE conjE) (rule that; assumption)
  from e have "utf8_encode [97, 98, 99] = Inr enc" unfolding b by simp
  moreover have "utf8_encode [97, 98, 99] = Inr ''abc''" by code_simp
  ultimately have "enc = ''abc''" by simp
  with c show ?thesis by simp
qed

end
